theory Spec2Isabelle
  imports Main
begin

section \<open>The quadtree of pytree/SpatialPartioningtree/quadtree/_quadtree.py\<close>

text \<open>
  The node pool is the Python list \<open>all_quad_node\<close>; a node object is identified with the
  slot that holds it (every slot holds an object of its own, created by \<open>QuadNode(...)\<close>
  when the slot is appended), so a parameter \<open>qnode\<close> of the source is the position of that
  object in the pool, and \<open>qnode == self.root\<close> is \<open>qnode = 0\<close>.
  Python exceptions are values: a procedure that mutates the tree returns an
  \<open>outcome\<close>, which keeps the tree as it is at the moment of the raise.
\<close>

subsection \<open>Python values\<close>

datatype py_error = ValueError | IndexError | TypeError | NotImplementedError | RecursionError

text \<open>Python list indexing: a negative index counts from the end, anything else out of
  range raises IndexError (here: \<open>None\<close>).\<close>

definition py_index :: "'a list \<Rightarrow> int \<Rightarrow> nat option" where
  "py_index xs i =
     (let n = int (length xs)
      in if 0 \<le> i \<and> i < n then Some (nat i)
         else if - n \<le> i \<and> i < 0 then Some (nat (n + i))
         else None)"

subsection \<open>Boxes and the geometry utilities\<close>

text \<open>Modelled from the spec: the class \<open>BBox\<close> of the module \<open>utils\<close>, which is not among
  the source files. A box has the fields \<open>x\<close>, \<open>y\<close>, \<open>w\<close>, \<open>h\<close> (the source reads \<open>.w\<close> and
  \<open>.h\<close> and builds \<open>BBox(0, 0, *size)\<close>).\<close>

record bbox =
  box_x :: int
  box_y :: int
  box_w :: int
  box_h :: int

text \<open>The three geometry functions the quadtree imports from \<open>utils\<close> are not among the
  source files either. They are parameters of the model: \<open>split_box\<close> yields the sequence
  of quadrants the source enumerates, \<open>is_intersecting\<close> and \<open>is_inscribed\<close> are the two
  tests, with the arguments in the order of the call.\<close>

record geometry =
  split_box :: "bbox \<Rightarrow> bbox list"
  is_intersecting :: "bbox \<Rightarrow> bbox \<Rightarrow> bool"
  is_inscribed :: "bbox \<Rightarrow> bbox \<Rightarrow> bool"

subsection \<open>QuadNode\<close>

text \<open>Modelled from the spec: the class \<open>QuadNode\<close> of the module \<open>_quadnode\<close>, which is not
  among the source files. The spec gives its four fields, the defaults of a new node
  (\<open>first_child = -1\<close>, \<open>total_entity = 0\<close>, \<open>in_use = true\<close>; the root's parent is itself),
  the predicates \<open>is_leaf\<close> (\<open>total_entity >= 0\<close>) and \<open>is_branch\<close> (\<open>total_entity == -1\<close>),
  that a reused slot is reinitialised to the defaults of a new child (\<open>update\<close>), and that
  a freed slot gets \<open>in_use = false\<close> and the previous head of the free list in its
  link field \<open>first_child\<close> (\<open>set_free\<close>).\<close>

record quadnode =
  first_child :: int
  total_entity :: int
  parent_index :: int
  in_use :: bool

definition QuadNode :: "int \<Rightarrow> quadnode" where
  "QuadNode pindex =
     \<lparr>first_child = - 1, total_entity = 0, parent_index = pindex, in_use = True\<rparr>"

definition is_leaf :: "quadnode \<Rightarrow> bool" where
  "is_leaf n \<longleftrightarrow> total_entity n \<ge> 0"

definition is_branch :: "quadnode \<Rightarrow> bool" where
  "is_branch n \<longleftrightarrow> total_entity n = - 1"

definition update :: "int \<Rightarrow> int \<Rightarrow> int \<Rightarrow> quadnode \<Rightarrow> quadnode" where
  "update fc te pindex n =
     n\<lparr>first_child := fc, total_entity := te, parent_index := pindex, in_use := True\<rparr>"

definition set_free :: "int \<Rightarrow> quadnode \<Rightarrow> quadnode" where
  "set_free next_free n = n\<lparr>first_child := next_free, in_use := False\<rparr>"

subsection \<open>QuadTree\<close>

record quadtree =
  bbox :: bbox
  auto_id :: bool
  max_depth :: int
  free_quad_node_index :: int
  num_quad_node_in_use :: int
  all_quad_node :: "quadnode list"
  cleaned :: bool

datatype 'a outcome = Return 'a quadtree | Raise py_error quadtree

text \<open>\<open>__init__\<close>: \<open>BBox(0, 0, *size)\<close> needs a \<open>size\<close> of two components, and
  \<open>int(max_depth)\<close> raises on \<open>None\<close>.\<close>

definition init :: "int list \<Rightarrow> int option \<Rightarrow> bool \<Rightarrow> py_error + quadtree" where
  "init sz mdepth aid =
     (case sz of
        [sw, sh] \<Rightarrow>
          (case mdepth of
             None \<Rightarrow> Inl TypeError
           | Some d \<Rightarrow>
               Inr \<lparr>bbox = \<lparr>box_x = 0, box_y = 0, box_w = sw, box_h = sh\<rparr>,
                    auto_id = aid,
                    max_depth = d,
                    free_quad_node_index = - 1,
                    num_quad_node_in_use = 1,
                    all_quad_node = [QuadNode 0],
                    cleaned = True\<rparr>)
      | _ \<Rightarrow> Inl TypeError)"

text \<open>A write to a field of the node object in slot \<open>i\<close>.\<close>

definition node_upd :: "quadtree \<Rightarrow> nat \<Rightarrow> (quadnode \<Rightarrow> quadnode) \<Rightarrow> quadtree" where
  "node_upd t i f = t\<lparr>all_quad_node := (all_quad_node t)[i := f (all_quad_node t ! i)]\<rparr>"

subsection \<open>insert and fill_tree\<close>

text \<open>\<open>insert(self)\<close> takes no argument besides the tree: a call with arguments raises
  TypeError before the body runs, a call with none raises NotImplementedError.\<close>

definition insert_entity :: "quadtree \<Rightarrow> 'e list \<Rightarrow> unit outcome" where
  "insert_entity t args = (if args = [] then Raise NotImplementedError t else Raise TypeError t)"

fun insert_all :: "quadtree \<Rightarrow> 'e list \<Rightarrow> unit outcome" where
  "insert_all t [] = Return () t"
| "insert_all t (e # es) =
     (case insert_entity t [e] of
        Raise err t' \<Rightarrow> Raise err t'
      | Return _ t' \<Rightarrow> insert_all t' es)"

text \<open>\<open>fill_tree(cls, bbox, entities, size, capacity, auto_id)\<close>: \<open>bbox\<close> is passed on as
  the \<open>size\<close> of the constructor and \<open>capacity\<close> as its \<open>max_depth\<close>; \<open>None\<close> and the
  empty sequence are false in \<open>any([entities, bbox])\<close>; iterating over \<open>None\<close> raises
  TypeError.\<close>

definition fill_tree ::
  "int list \<Rightarrow> 'e list option \<Rightarrow> int \<Rightarrow> int option \<Rightarrow> bool \<Rightarrow> py_error + quadtree" where
  "fill_tree bb entities sz capacity aid =
     (if (entities = None \<or> entities = Some []) \<and> bb = [] then Inl ValueError
      else
        (case init bb capacity aid of
           Inl err \<Rightarrow> Inl err
         | Inr quadtree \<Rightarrow>
             (case entities of
                None \<Rightarrow> Inl TypeError
              | Some es \<Rightarrow>
                  (case insert_all quadtree es of
                     Raise err _ \<Rightarrow> Inl err
                   | Return _ t' \<Rightarrow> Inr t'))))"

subsection \<open>The allocator: set_branch and set_free_quad_node\<close>

text \<open>The loop of \<open>set_branch\<close> over the four slots of the reused block.\<close>

fun update_children :: "quadtree \<Rightarrow> int \<Rightarrow> int list \<Rightarrow> unit outcome" where
  "update_children t qindex [] = Return () t"
| "update_children t qindex (i # rest) =
     (case py_index (all_quad_node t) (free_quad_node_index t + i) of
        None \<Rightarrow> Raise IndexError t
      | Some child \<Rightarrow> update_children (node_upd t child (update (- 1) 0 qindex)) qindex rest)"

definition set_branch :: "quadtree \<Rightarrow> nat \<Rightarrow> int \<Rightarrow> unit outcome" where
  "set_branch t qnode qindex =
     (let t1 = node_upd t qnode (\<lambda>n. n\<lparr>total_entity := - 1\<rparr>);
          t2 = t1\<lparr>num_quad_node_in_use := num_quad_node_in_use t1 + 4\<rparr>
      in if free_quad_node_index t2 = - 1 then
           let t3 = node_upd t2 qnode (\<lambda>n. n\<lparr>first_child := int (length (all_quad_node t2))\<rparr>)
           in Return () (t3\<lparr>all_quad_node := all_quad_node t3 @ replicate 4 (QuadNode qindex)\<rparr>)
         else
           let t3 = node_upd t2 qnode (\<lambda>n. n\<lparr>first_child := free_quad_node_index t2\<rparr>)
           in (case py_index (all_quad_node t3) (first_child (all_quad_node t3 ! qnode)) of
                 None \<Rightarrow> Raise IndexError t3
               | Some j \<Rightarrow>
                   let next_free_quad_node_index = first_child (all_quad_node t3 ! j)
                   in (case update_children t3 qindex [0, 1, 2, 3] of
                         Raise err t4 \<Rightarrow> Raise err t4
                       | Return _ t4 \<Rightarrow>
                           Return () (t4\<lparr>free_quad_node_index := next_free_quad_node_index\<rparr>))))"

text \<open>The loop of \<open>set_free_quad_node\<close>: \<open>parent_node.first_child\<close> is read again in
  every round.\<close>

fun free_children :: "quadtree \<Rightarrow> nat \<Rightarrow> int list \<Rightarrow> unit outcome" where
  "free_children t parent_node [] = Return () t"
| "free_children t parent_node (i # rest) =
     (case py_index (all_quad_node t) (first_child (all_quad_node t ! parent_node) + i) of
        None \<Rightarrow> Raise IndexError t
      | Some child \<Rightarrow>
          free_children (node_upd t child (set_free (free_quad_node_index t))) parent_node rest)"

definition set_free_quad_node :: "quadtree \<Rightarrow> int \<Rightarrow> unit outcome" where
  "set_free_quad_node t qindex =
     (if (qindex - 1) mod 4 \<noteq> 0 then Raise ValueError t
      else
        (case py_index (all_quad_node t) qindex of
           None \<Rightarrow> Raise IndexError t
         | Some qnode \<Rightarrow>
             (case py_index (all_quad_node t) (parent_index (all_quad_node t ! qnode)) of
                None \<Rightarrow> Raise IndexError t
              | Some parent_node \<Rightarrow>
                  (case free_children t parent_node [0, 1, 2, 3] of
                     Raise err t1 \<Rightarrow> Raise err t1
                   | Return _ t1 \<Rightarrow>
                       Return ()
                         (node_upd
                            (t1\<lparr>free_quad_node_index := qindex,
                                num_quad_node_in_use := num_quad_node_in_use t1 - 4\<rparr>)
                            parent_node
                            (\<lambda>n. n\<lparr>first_child := - 1, total_entity := 0\<rparr>))))))"

subsection \<open>clean_up\<close>

text \<open>The generator \<open>sum(clean_unused_qnode(self.all_quad_node[cindex + i]) for i in
  range(4))\<close>: the calls run in order, each on the tree the one before left. The first
  argument is the recursive function.\<close>

fun sum_children ::
  "(quadtree \<Rightarrow> nat \<Rightarrow> int outcome) \<Rightarrow> quadtree \<Rightarrow> int \<Rightarrow> int list \<Rightarrow> int outcome" where
  "sum_children f t cindex [] = Return 0 t"
| "sum_children f t cindex (i # rest) =
     (case py_index (all_quad_node t) (cindex + i) of
        None \<Rightarrow> Raise IndexError t
      | Some child \<Rightarrow>
          (case f t child of
             Raise err t1 \<Rightarrow> Raise err t1
           | Return r t1 \<Rightarrow>
               (case sum_children f t1 cindex rest of
                  Raise err t2 \<Rightarrow> Raise err t2
                | Return s t2 \<Rightarrow> Return (r + s) t2)))"

text \<open>The inner function \<open>clean_unused_qnode\<close>. Its first argument is the number of
  nested calls the interpreter still allows: Python raises RecursionError beyond its
  recursion limit.\<close>

primrec clean_unused_qnode :: "nat \<Rightarrow> quadtree \<Rightarrow> nat \<Rightarrow> int outcome" where
  "clean_unused_qnode 0 t qnode = Raise RecursionError t"
| "clean_unused_qnode (Suc depth) t qnode =
     (let n = all_quad_node t ! qnode
      in if \<not> in_use n \<or> (is_leaf n \<and> total_entity n > 0) then Return 0 t
         else if is_branch n then
           let cindex = first_child n
           in (case sum_children (clean_unused_qnode depth) t cindex [0, 1, 2, 3] of
                 Raise err t1 \<Rightarrow> Raise err t1
               | Return s t1 \<Rightarrow>
                   if s = 4 then
                     (case set_free_quad_node t1 cindex of
                        Raise err t2 \<Rightarrow> Raise err t2
                      | Return _ t2 \<Rightarrow>
                          if qnode = 0
                          then Return 1 (node_upd t2 qnode (\<lambda>n. n\<lparr>first_child := 1\<rparr>))
                          else Return 1 t2)
                   else Return 1 t1)
         else Return 1 t)"

definition clean_up :: "nat \<Rightarrow> quadtree \<Rightarrow> unit outcome" where
  "clean_up depth t =
     (case clean_unused_qnode depth t 0 of
        Raise err t1 \<Rightarrow> Raise err t1
      | Return _ t1 \<Rightarrow> Return () t1)"

subsection \<open>get_bbox\<close>

text \<open>The loop \<open>while qnode.parent_index != 0\<close>. Nothing bounds it on a pool whose parent
  links form a cycle, so it runs on fuel: \<open>None\<close> is a loop that has not ended when the
  fuel is spent.\<close>

fun parent_quadrants :: "quadtree \<Rightarrow> nat \<Rightarrow> nat \<Rightarrow> int list \<Rightarrow> (py_error + int list) option" where
  "parent_quadrants t 0 qnode quadrants =
     (if parent_index (all_quad_node t ! qnode) = 0 then Some (Inr quadrants) else None)"
| "parent_quadrants t (Suc fuel) qnode quadrants =
     (let p = parent_index (all_quad_node t ! qnode)
      in if p = 0 then Some (Inr quadrants)
         else
           (case py_index (all_quad_node t) p of
              None \<Rightarrow> Some (Inl IndexError)
            | Some qnode' \<Rightarrow> parent_quadrants t fuel qnode' (quadrants @ [(p - 1) mod 4])))"

text \<open>The inner loop \<open>for ind, quad in enumerate(split_box(tbbox))\<close>, which keeps the
  quadrant whose position is \<open>quadrant_index\<close>.\<close>

definition select_quadrant :: "geometry \<Rightarrow> bbox \<Rightarrow> int \<Rightarrow> bbox" where
  "select_quadrant g tbbox quadrant_index =
     fold (\<lambda>(ind, quad) acc. if int ind = quadrant_index then quad else acc)
       (enumerate 0 (split_box g tbbox)) tbbox"

text \<open>\<open>self.all_quad_node.index(qnode)\<close> raises ValueError for an object that is not in
  the pool. The result is the pair the source returns, \<open>(qnode_index, tbbox)\<close>.\<close>

definition get_bbox :: "geometry \<Rightarrow> quadtree \<Rightarrow> nat \<Rightarrow> nat \<Rightarrow> (py_error + int \<times> bbox) option" where
  "get_bbox g t fuel qnode =
     (if qnode = 0 then Some (Inr (0, bbox t))
      else if qnode \<ge> length (all_quad_node t) then Some (Inl ValueError)
      else
        (case parent_quadrants t fuel qnode [(int qnode - 1) mod 4] of
           None \<Rightarrow> None
         | Some (Inl err) \<Rightarrow> Some (Inl err)
         | Some (Inr quadrants) \<Rightarrow>
             Some (Inr (int qnode, fold (\<lambda>quadrant_index tbbox. select_quadrant g tbbox quadrant_index)
                                     quadrants (bbox t)))))"

subsection \<open>find_quad_node\<close>

text \<open>A candidate is the triple \<open>(qindex, qnode, qbbox)\<close> of the source. The stack
  \<open>to_process\<close> is a list whose last element is the top, as in Python.\<close>

type_synonym candidate = "int \<times> nat \<times> bbox"

definition contained_quadrants :: "geometry \<Rightarrow> bbox \<Rightarrow> quadnode \<Rightarrow> bbox \<Rightarrow> (int \<times> bbox) list" where
  "contained_quadrants g b n qbbox =
     map (\<lambda>(ind, quadrant). (first_child n + int ind, quadrant))
       (filter (\<lambda>(ind, quadrant). is_intersecting g b quadrant \<and> is_inscribed g b quadrant)
          (enumerate 0 (split_box g qbbox)))"

fun find_quad_node_loop ::
  "geometry \<Rightarrow> quadtree \<Rightarrow> bbox \<Rightarrow> nat \<Rightarrow> (int \<times> bbox) list \<Rightarrow> candidate list
     \<Rightarrow> (py_error + candidate list) option" where
  "find_quad_node_loop g t b 0 to_process candidates =
     (if to_process = [] then Some (Inr candidates) else None)"
| "find_quad_node_loop g t b (Suc fuel) to_process candidates =
     (if to_process = [] then Some (Inr candidates)
      else
        (case last to_process of (qindex, qbbox) \<Rightarrow>
           (case py_index (all_quad_node t) qindex of
              None \<Rightarrow> Some (Inl IndexError)
            | Some qnode \<Rightarrow>
                let n = all_quad_node t ! qnode
                in if \<not> in_use n then find_quad_node_loop g t b fuel (butlast to_process) candidates
                   else if is_leaf n then
                     find_quad_node_loop g t b fuel (butlast to_process)
                       (candidates @ [(qindex, qnode, qbbox)])
                   else
                     find_quad_node_loop g t b fuel
                       (butlast to_process @ contained_quadrants g b n qbbox)
                       (candidates @ [(qindex, qnode, qbbox)]))))"

text \<open>Python's \<open>min(candidates, key=...)\<close>: the first element with the least key, and
  ValueError on an empty list.\<close>

fun min_by :: "('a \<Rightarrow> int) \<Rightarrow> 'a \<Rightarrow> 'a list \<Rightarrow> 'a" where
  "min_by key best [] = best"
| "min_by key best (c # cs) = min_by key (if key c < key best then c else best) cs"

definition py_min :: "('a \<Rightarrow> int) \<Rightarrow> 'a list \<Rightarrow> py_error + 'a" where
  "py_min key cs = (case cs of [] \<Rightarrow> Inl ValueError | c # rest \<Rightarrow> Inr (min_by key c rest))"

definition area :: "candidate \<Rightarrow> int" where
  "area c = box_w (snd (snd c)) * box_h (snd (snd c))"

text \<open>The result is the triple returned for \<open>index=True\<close>; for \<open>index=False\<close> the source
  returns its second and third component.\<close>

definition find_quad_node :: "geometry \<Rightarrow> quadtree \<Rightarrow> nat \<Rightarrow> bbox \<Rightarrow> (py_error + candidate) option" where
  "find_quad_node g t fuel b =
     (case find_quad_node_loop g t b fuel [(0, bbox t)] [] of
        None \<Rightarrow> None
      | Some (Inl err) \<Rightarrow> Some (Inl err)
      | Some (Inr candidates) \<Rightarrow> Some (py_min area candidates))"

subsection \<open>find_leaves\<close>

definition overlapping_quadrants :: "geometry \<Rightarrow> quadnode \<Rightarrow> bbox \<Rightarrow> (int \<times> bbox) list" where
  "overlapping_quadrants g n qbbox =
     map (\<lambda>(ind, quadrant). (first_child n + int ind, quadrant))
       (filter (\<lambda>(ind, quadrant). is_intersecting g qbbox quadrant)
          (enumerate 0 (split_box g qbbox)))"

fun find_leaves_loop ::
  "geometry \<Rightarrow> quadtree \<Rightarrow> nat \<Rightarrow> (int \<times> bbox) list \<Rightarrow> candidate list
     \<Rightarrow> (py_error + candidate list) option" where
  "find_leaves_loop g t 0 to_process bounded_leaves =
     (if to_process = [] then Some (Inr bounded_leaves) else None)"
| "find_leaves_loop g t (Suc fuel) to_process bounded_leaves =
     (if to_process = [] then Some (Inr bounded_leaves)
      else
        (case last to_process of (qindex, qbbox) \<Rightarrow>
           (case py_index (all_quad_node t) qindex of
              None \<Rightarrow> Some (Inl IndexError)
            | Some qnode \<Rightarrow>
                let n = all_quad_node t ! qnode
                in if \<not> in_use n then find_leaves_loop g t fuel (butlast to_process) bounded_leaves
                   else if is_leaf n then
                     find_leaves_loop g t fuel (butlast to_process)
                       (bounded_leaves @ [(qindex, qnode, qbbox)])
                   else
                     find_leaves_loop g t fuel
                       (butlast to_process @ overlapping_quadrants g n qbbox)
                       bounded_leaves)))"

text \<open>\<open>find_leaves(qnode, bbox, index)\<close> with \<open>index=True\<close>; an argument left out is
  \<open>None\<close>, and a node or a box that is given counts as true.\<close>

definition find_leaves ::
  "geometry \<Rightarrow> quadtree \<Rightarrow> nat \<Rightarrow> nat option \<Rightarrow> bbox option \<Rightarrow> (py_error + candidate list) option" where
  "find_leaves g t fuel qnode b =
     (case (qnode, b) of
        (None, None) \<Rightarrow> Some (Inl ValueError)
      | (Some _, Some _) \<Rightarrow> Some (Inl ValueError)
      | (Some q, None) \<Rightarrow>
          (case get_bbox g t fuel q of
             None \<Rightarrow> None
           | Some (Inl err) \<Rightarrow> Some (Inl err)
           | Some (Inr (qindex, qbbox)) \<Rightarrow> find_leaves_loop g t fuel [(qindex, qbbox)] [])
      | (None, Some b') \<Rightarrow>
          (case find_quad_node g t fuel b' of
             None \<Rightarrow> None
           | Some (Inl err) \<Rightarrow> Some (Inl err)
           | Some (Inr (qindex, _, qbbox)) \<Rightarrow> find_leaves_loop g t fuel [(qindex, qbbox)] []))"

subsection \<open>A concrete geometry\<close>

text \<open>Modelled from the spec: the module \<open>utils\<close> is not among the source files. The spec
  describes a split of a box into four equal quadrants in a fixed order, an overlap test
  and a box-in-box test; this instance, on integer boxes, serves to run the model on
  concrete trees. \<open>box_inscribed a b\<close> says that \<open>a\<close> lies within \<open>b\<close>.\<close>

definition box_split :: "bbox \<Rightarrow> bbox list" where
  "box_split b =
     (let hw = box_w b div 2; hh = box_h b div 2
      in [\<lparr>box_x = box_x b, box_y = box_y b, box_w = hw, box_h = hh\<rparr>,
          \<lparr>box_x = box_x b + hw, box_y = box_y b, box_w = hw, box_h = hh\<rparr>,
          \<lparr>box_x = box_x b, box_y = box_y b + hh, box_w = hw, box_h = hh\<rparr>,
          \<lparr>box_x = box_x b + hw, box_y = box_y b + hh, box_w = hw, box_h = hh\<rparr>])"

definition box_intersecting :: "bbox \<Rightarrow> bbox \<Rightarrow> bool" where
  "box_intersecting a b \<longleftrightarrow>
     box_x a < box_x b + box_w b \<and> box_x b < box_x a + box_w a \<and>
     box_y a < box_y b + box_h b \<and> box_y b < box_y a + box_h a"

definition box_inscribed :: "bbox \<Rightarrow> bbox \<Rightarrow> bool" where
  "box_inscribed a b \<longleftrightarrow>
     box_x b \<le> box_x a \<and> box_x a + box_w a \<le> box_x b + box_w b \<and>
     box_y b \<le> box_y a \<and> box_y a + box_h a \<le> box_y b + box_h b"

definition plane_geometry :: geometry where
  "plane_geometry =
     \<lparr>split_box = box_split, is_intersecting = box_intersecting, is_inscribed = box_inscribed\<rparr>"

subsection \<open>Auxiliary notions for the proofs\<close>

definition map_block :: "(quadnode \<Rightarrow> quadnode) \<Rightarrow> nat \<Rightarrow> quadnode list \<Rightarrow> quadnode list" where
  "map_block f c xs = map (\<lambda>j. if c \<le> j \<and> j < c + 4 then f (xs ! j) else xs ! j) [0..<length xs]"

definition returned :: "'a outcome \<Rightarrow> bool" where
  "returned r = (case r of Return _ _ \<Rightarrow> True | Raise _ _ \<Rightarrow> False)"

definition tree_of :: "'a outcome \<Rightarrow> quadtree" where
  "tree_of r = (case r of Return _ t \<Rightarrow> t | Raise _ t \<Rightarrow> t)"

definition tree_new :: quadtree where
  "tree_new =
     \<lparr>bbox = \<lparr>box_x = 0, box_y = 0, box_w = 100, box_h = 100\<rparr>, auto_id = False,
      max_depth = 12, free_quad_node_index = - 1, num_quad_node_in_use = 1,
      all_quad_node = [QuadNode 0], cleaned = True\<rparr>"

definition tree_split :: quadtree where
  "tree_split =
     \<lparr>bbox = \<lparr>box_x = 0, box_y = 0, box_w = 100, box_h = 100\<rparr>, auto_id = False,
      max_depth = 12, free_quad_node_index = - 1, num_quad_node_in_use = 5,
      all_quad_node =
        [\<lparr>first_child = 1, total_entity = - 1, parent_index = 0, in_use = True\<rparr>,
         QuadNode 0, QuadNode 0, QuadNode 0, QuadNode 0],
      cleaned = True\<rparr>"

definition tree_split2 :: quadtree where
  "tree_split2 =
     \<lparr>bbox = \<lparr>box_x = 0, box_y = 0, box_w = 100, box_h = 100\<rparr>, auto_id = False,
      max_depth = 12, free_quad_node_index = - 1, num_quad_node_in_use = 9,
      all_quad_node =
        [\<lparr>first_child = 1, total_entity = - 1, parent_index = 0, in_use = True\<rparr>,
         QuadNode 0, QuadNode 0, QuadNode 0,
         \<lparr>first_child = 5, total_entity = - 1, parent_index = 0, in_use = True\<rparr>,
         QuadNode 4, QuadNode 4, QuadNode 4, QuadNode 4],
      cleaned = True\<rparr>"

text \<open>\<open>first_least key cs r\<close>: \<open>r\<close> occurs in \<open>cs\<close>, every element before that occurrence has
  a strictly greater key, and no element after it has a smaller one.\<close>

definition first_least :: "('a \<Rightarrow> int) \<Rightarrow> 'a list \<Rightarrow> 'a \<Rightarrow> bool" where
  "first_least key cs r \<longleftrightarrow>
     (\<exists>pre post. cs = pre @ r # post \<and> (\<forall>c\<in>set pre. key r < key c) \<and>
        (\<forall>c\<in>set post. key r \<le> key c))"

text \<open>A box is admitted to the traversal of \<open>find_quad_node\<close> when it is the whole-tree box
  or passes both tests against the query box; a recorded candidate is a slot in use,
  found at the index of the candidate, with an admitted box.\<close>

definition admitted :: "geometry \<Rightarrow> quadtree \<Rightarrow> bbox \<Rightarrow> bbox \<Rightarrow> bool" where
  "admitted g t b qbbox \<longleftrightarrow>
     qbbox = bbox t \<or> (is_intersecting g b qbbox \<and> is_inscribed g b qbbox)"

definition recorded :: "geometry \<Rightarrow> quadtree \<Rightarrow> bbox \<Rightarrow> candidate \<Rightarrow> bool" where
  "recorded g t b c \<longleftrightarrow>
     (case c of (qindex, qnode, qbbox) \<Rightarrow>
        py_index (all_quad_node t) qindex = Some qnode \<and> in_use (all_quad_node t ! qnode) \<and>
        admitted g t b qbbox)"

text \<open>The free list as a chain of blocks: the head is the base of the first block, every
  slot of a block is out of use, and the link field of a block's first slot leads to the
  rest of the chain; the chain ends at the head -1.\<close>

fun free_chain :: "quadnode list \<Rightarrow> int \<Rightarrow> nat list \<Rightarrow> bool" where
  "free_chain xs h [] \<longleftrightarrow> h = - 1"
| "free_chain xs h (b # bs) \<longleftrightarrow>
     h = int b \<and> b mod 4 = 1 \<and> b + 3 < length xs \<and>
     (\<forall>j. b \<le> j \<and> j < b + 4 \<longrightarrow> \<not> in_use (xs ! j)) \<and>
     free_chain xs (first_child (xs ! b)) bs"

definition branch_inv :: "(nat \<Rightarrow> nat) \<Rightarrow> (nat \<Rightarrow> nat) \<Rightarrow> quadnode list \<Rightarrow> bool" where
  "branch_inv par rank xs \<longleftrightarrow>
     (\<forall>i<length xs. in_use (xs ! i) \<and> is_branch (xs ! i) \<longrightarrow>
        (\<exists>c. first_child (xs ! i) = int c \<and> c mod 4 = 1 \<and> c + 3 < length xs \<and>
           (\<forall>j. c \<le> j \<and> j < c + 4 \<longrightarrow>
              in_use (xs ! j) \<and> parent_index (xs ! j) = int i \<and>
              par j = i \<and> rank j = Suc (rank i))))"

definition pool_inv :: "(nat \<Rightarrow> nat) \<Rightarrow> (nat \<Rightarrow> nat) \<Rightarrow> quadtree \<Rightarrow> bool" where
  "pool_inv par rank t \<longleftrightarrow>
     length (all_quad_node t) mod 4 = 1 \<and>
     in_use (all_quad_node t ! 0) \<and>
     (\<forall>i<length (all_quad_node t). - 1 \<le> total_entity (all_quad_node t ! i)) \<and>
     branch_inv par rank (all_quad_node t) \<and>
     (\<exists>bs. distinct bs \<and> free_chain (all_quad_node t) (free_quad_node_index t) bs)"

text \<open>Ghost structure for the proofs about \<open>clean_up\<close>: \<open>under par rank j x\<close> says that
  following the parent function from \<open>j\<close>, for as many steps as the ranks of \<open>j\<close> and \<open>x\<close>
  differ, leads to \<open>x\<close>. \<open>quiet depth t qnode\<close> is the value \<open>clean_unused_qnode\<close> returns
  when it runs without freeing any block, and \<open>None\<close> when it frees one, raises, or
  exceeds the depth.\<close>

fun up :: "(nat \<Rightarrow> nat) \<Rightarrow> nat \<Rightarrow> nat \<Rightarrow> nat" where
  "up par 0 j = j"
| "up par (Suc n) j = up par n (par j)"

definition under :: "(nat \<Rightarrow> nat) \<Rightarrow> (nat \<Rightarrow> nat) \<Rightarrow> nat \<Rightarrow> nat \<Rightarrow> bool" where
  "under par rank j x \<longleftrightarrow> rank x \<le> rank j \<and> up par (rank j - rank x) j = x"

fun quiet_sum ::
  "(quadtree \<Rightarrow> nat \<Rightarrow> int option) \<Rightarrow> quadtree \<Rightarrow> int \<Rightarrow> int list \<Rightarrow> int option" where
  "quiet_sum f t cindex [] = Some 0"
| "quiet_sum f t cindex (i # rest) =
     (case py_index (all_quad_node t) (cindex + i) of
        None \<Rightarrow> None
      | Some child \<Rightarrow>
          (case f t child of
             None \<Rightarrow> None
           | Some r \<Rightarrow>
               (case quiet_sum f t cindex rest of
                  None \<Rightarrow> None
                | Some s \<Rightarrow> Some (r + s))))"

primrec quiet :: "nat \<Rightarrow> quadtree \<Rightarrow> nat \<Rightarrow> int option" where
  "quiet 0 t qnode = None"
| "quiet (Suc depth) t qnode =
     (let n = all_quad_node t ! qnode
      in if \<not> in_use n \<or> (is_leaf n \<and> total_entity n > 0) then Some 0
         else if is_branch n then
           (case quiet_sum (quiet depth) t (first_child n) [0, 1, 2, 3] of
              None \<Rightarrow> None
            | Some s \<Rightarrow> if s = 4 then None else Some 1)
         else Some 1)"

text \<open>What a run of \<open>clean_unused_qnode\<close> of depth \<open>d\<close> that returns keeps and leaves behind:
  the invariant, the length of the pool, every slot that is not under the node it
  started at, and a pool on which a second run frees nothing.\<close>

definition run_ok :: "(nat \<Rightarrow> nat) \<Rightarrow> (nat \<Rightarrow> nat) \<Rightarrow> nat \<Rightarrow> bool" where
  "run_ok par rank d \<longleftrightarrow>
     (\<forall>t x r t'. pool_inv par rank t \<and> x < length (all_quad_node t) \<and>
        clean_unused_qnode d t x = Return r t' \<longrightarrow>
        pool_inv par rank t' \<and> length (all_quad_node t') = length (all_quad_node t) \<and>
        (\<forall>j<length (all_quad_node t). \<not> under par rank j x \<longrightarrow>
           all_quad_node t' ! j = all_quad_node t ! j) \<and>
        quiet d t' x = Some r)"


text \<open>The states of a tree: the tree as constructed, and what the operations of the
  source make of it when they return. \<open>set_branch\<close> is applied to a node in use with its
  own index, \<open>set_free_quad_node\<close> to the block of children of a branch in use (as
  \<open>clean_up\<close> applies it), \<open>clean_up\<close> to the tree; the last rule is a write to the entity
  count of a leaf, which is what storing or removing entities amounts to for the pool.\<close>

inductive reachable :: "quadtree \<Rightarrow> bool" where
  new: "init sz d a = Inr t \<Longrightarrow> reachable t"
| split: "reachable t \<Longrightarrow> q < length (all_quad_node t) \<Longrightarrow> in_use (all_quad_node t ! q) \<Longrightarrow>
     set_branch t q (int q) = Return () t' \<Longrightarrow> reachable t'"
| free: "reachable t \<Longrightarrow> p < length (all_quad_node t) \<Longrightarrow> in_use (all_quad_node t ! p) \<Longrightarrow>
     is_branch (all_quad_node t ! p) \<Longrightarrow>
     set_free_quad_node t (first_child (all_quad_node t ! p)) = Return () t' \<Longrightarrow> reachable t'"
| clean: "reachable t \<Longrightarrow> clean_up d t = Return () t' \<Longrightarrow> reachable t'"
| entities: "reachable t \<Longrightarrow> q < length (all_quad_node t) \<Longrightarrow> in_use (all_quad_node t ! q) \<Longrightarrow>
     is_leaf (all_quad_node t ! q) \<Longrightarrow> 0 \<le> n \<Longrightarrow>
     reachable (node_upd t q (\<lambda>x. x\<lparr>total_entity := n\<rparr>))"


text \<open>Termination of the traversal of \<open>find_quad_node\<close>: \<open>above\<close> counts the slots
  of rank greater than a node's, which decreases from a branch to its children;
  \<open>finishes\<close> says that working off the stack entries \<open>es\<close> takes a fixed amount of fuel
  and appends a fixed list of candidates.\<close>

definition above :: "(nat \<Rightarrow> nat) \<Rightarrow> nat \<Rightarrow> nat \<Rightarrow> nat" where
  "above rank n x = card {j. j < n \<and> rank x < rank j}"

definition finishes :: "geometry \<Rightarrow> quadtree \<Rightarrow> bbox \<Rightarrow> (int \<times> bbox) list \<Rightarrow> bool" where
  "finishes g t b es \<longleftrightarrow>
     (\<exists>n cs. \<forall>fuel to_process candidates.
        find_quad_node_loop g t b (n + fuel) (to_process @ es) candidates
          = find_quad_node_loop g t b fuel to_process (candidates @ cs))"

section \<open>Properties\<close>

subsection \<open>Errors of the allocator and of insert\<close>

lemma free_children_raise: "free_children t p xs = Raise err t' \<Longrightarrow> err = IndexError"
  by (induction xs arbitrary: t) (auto split: option.splits)

text \<open>Claim C7: \<open>set_free_quad_node\<close> raises the invalid-argument error (ValueError)
  exactly when its index \<open>q\<close> has \<open>(q - 1) mod 4 \<noteq> 0\<close>, and the tree it leaves behind is
  then the tree it was given: no node record, nor the free-list head, nor the in-use
  counter has changed.\<close>

theorem set_free_quad_node_ValueError:
  "set_free_quad_node t q = Raise ValueError t' \<longleftrightarrow> (q - 1) mod 4 \<noteq> 0 \<and> t' = t"
  by (auto simp: set_free_quad_node_def split: option.splits outcome.splits
      dest: free_children_raise)

text \<open>Claim C10: whatever the tree and the arguments, \<open>insert\<close> raises and leaves the tree
  as it was; and \<open>fill_tree\<close> called with a non-empty list of entities raises, so it
  returns no tree.\<close>

theorem insert_always_raises:
  "(\<exists>err. insert_entity t args = Raise err t) \<and>
   (\<exists>err. fill_tree bb (Some (e # es)) sz capacity aid = Inl err)"
  by (auto simp: insert_entity_def fill_tree_def split: sum.splits)

lemma length_map_block [simp]: "length (map_block f c xs) = length xs"
  by (simp add: map_block_def)

lemma nth_map_block [simp]:
  "j < length xs \<Longrightarrow> map_block f c xs ! j = (if c \<le> j \<and> j < c + 4 then f (xs ! j) else xs ! j)"
  by (simp add: map_block_def)

lemma py_index_nonneg: "0 \<le> i \<Longrightarrow> i < int (length xs) \<Longrightarrow> py_index xs i = Some (nat i)"
  by (simp add: py_index_def)

lemma py_index_nat [simp]: "py_index xs (int j) = (if j < length xs then Some j else None)"
  by (simp add: py_index_def)

lemma node_upd_fields [simp]:
  "all_quad_node (node_upd t i f) = (all_quad_node t)[i := f (all_quad_node t ! i)]"
  "free_quad_node_index (node_upd t i f) = free_quad_node_index t"
  "num_quad_node_in_use (node_upd t i f) = num_quad_node_in_use t"
  "bbox (node_upd t i f) = bbox t"
  "max_depth (node_upd t i f) = max_depth t"
  "auto_id (node_upd t i f) = auto_id t"
  "cleaned (node_upd t i f) = cleaned t"
  by (simp_all add: node_upd_def)

lemma node_upd_pool: "node_upd t i f = t\<lparr>all_quad_node := (all_quad_node t)[i := f (all_quad_node t ! i)]\<rparr>"
  by (simp add: node_upd_def)

lemma list_update_block4:
  assumes "c + 3 < length xs"
  shows "xs[c := f (xs ! c), Suc c := f (xs ! Suc c), Suc (Suc c) := f (xs ! Suc (Suc c)),
            Suc (Suc (Suc c)) := f (xs ! Suc (Suc (Suc c)))] = map_block f c xs"
  using assms by (auto intro!: nth_equalityI simp: nth_list_update)

lemma free_children_fold:
  assumes "p < length (all_quad_node t)" "first_child (all_quad_node t ! p) = int c"
    "\<forall>k\<in>set ks. c + k < length (all_quad_node t) \<and> c + k \<noteq> p"
  shows "free_children t p (map int ks) =
    Return () (t\<lparr>all_quad_node :=
      fold (\<lambda>k xs. xs[c + k := set_free (free_quad_node_index t) (xs ! (c + k))]) ks (all_quad_node t)\<rparr>)"
  using assms
proof (induction ks arbitrary: t)
  case Nil
  then show ?case by simp
next
  case (Cons k ks)
  let ?t1 = "node_upd t (c + k) (set_free (free_quad_node_index t))"
  have idx: "py_index (all_quad_node t) (first_child (all_quad_node t ! p) + int k) = Some (c + k)"
    using Cons.prems py_index_nat[of "all_quad_node t" "c + k"] by simp
  have step: "free_children t p (map int (k # ks)) = free_children ?t1 p (map int ks)"
    using idx by simp
  have "free_children ?t1 p (map int ks) =
    Return () (?t1\<lparr>all_quad_node :=
      fold (\<lambda>k xs. xs[c + k := set_free (free_quad_node_index ?t1) (xs ! (c + k))]) ks (all_quad_node ?t1)\<rparr>)"
    using Cons.prems by (intro Cons.IH) (auto simp: nth_list_update)
  then show ?case
    unfolding step by (simp add: node_upd_pool)
qed

lemma free_children_block:
  assumes "p < length (all_quad_node t)" "first_child (all_quad_node t ! p) = int c"
    "c + 3 < length (all_quad_node t)" "p < c \<or> c + 3 < p"
  shows "free_children t p [0, 1, 2, 3] =
    Return () (t\<lparr>all_quad_node := map_block (set_free (free_quad_node_index t)) c (all_quad_node t)\<rparr>)"
proof -
  have "free_children t p (map int [0, 1, 2, 3]) =
    Return () (t\<lparr>all_quad_node :=
      fold (\<lambda>k xs. xs[c + k := set_free (free_quad_node_index t) (xs ! (c + k))]) [0, 1, 2, 3] (all_quad_node t)\<rparr>)"
    using assms by (intro free_children_fold) auto
  moreover have "fold (\<lambda>k xs. xs[c + k := set_free (free_quad_node_index t) (xs ! (c + k))]) [0, 1, 2, 3] (all_quad_node t)
     = map_block (set_free (free_quad_node_index t)) c (all_quad_node t)"
    using assms(3) by (auto intro!: nth_equalityI simp: nth_list_update)
  ultimately show ?thesis by simp
qed

lemma set_free_quad_node_block:
  assumes "p < length (all_quad_node t)" "first_child (all_quad_node t ! p) = int c"
    "c + 3 < length (all_quad_node t)" "p < c \<or> c + 3 < p" "c mod 4 = 1"
    "parent_index (all_quad_node t ! c) = int p"
  shows "set_free_quad_node t (int c) =
    Return () (t\<lparr>free_quad_node_index := int c,
                  num_quad_node_in_use := num_quad_node_in_use t - 4,
                  all_quad_node := (map_block (set_free (free_quad_node_index t)) c (all_quad_node t))
                     [p := (all_quad_node t ! p)\<lparr>first_child := - 1, total_entity := 0\<rparr>]\<rparr>)"
proof -
  have m: "(int c - 1) mod 4 = 0"
    using assms(5) by presburger
  have i1: "py_index (all_quad_node t) (int c) = Some c"
    using assms(3) by simp
  have i2: "py_index (all_quad_node t) (parent_index (all_quad_node t ! c)) = Some p"
    using assms(1,6) by simp
  have keep: "map_block (set_free (free_quad_node_index t)) c (all_quad_node t) ! p = all_quad_node t ! p"
    using assms(1,4) by auto
  show ?thesis
    unfolding set_free_quad_node_def
    by (simp add: m i1 i2 free_children_block[OF assms(1-4)] node_upd_pool keep
        del: free_children.simps py_index_nat)
qed

lemma update_children_fold:
  assumes "free_quad_node_index t = int h" "\<forall>k\<in>set ks. h + k < length (all_quad_node t)"
  shows "update_children t qi (map int ks) =
    Return () (t\<lparr>all_quad_node :=
      fold (\<lambda>k xs. xs[h + k := update (- 1) 0 qi (xs ! (h + k))]) ks (all_quad_node t)\<rparr>)"
  using assms
proof (induction ks arbitrary: t)
  case Nil
  then show ?case by simp
next
  case (Cons k ks)
  let ?t1 = "node_upd t (h + k) (update (- 1) 0 qi)"
  have idx: "py_index (all_quad_node t) (free_quad_node_index t + int k) = Some (h + k)"
    using Cons.prems py_index_nat[of "all_quad_node t" "h + k"] by simp
  have step: "update_children t qi (map int (k # ks)) = update_children ?t1 qi (map int ks)"
    using idx by simp
  have "update_children ?t1 qi (map int ks) =
    Return () (?t1\<lparr>all_quad_node :=
      fold (\<lambda>k xs. xs[h + k := update (- 1) 0 qi (xs ! (h + k))]) ks (all_quad_node ?t1)\<rparr>)"
    using Cons.prems by (intro Cons.IH) auto
  then show ?case
    unfolding step by (simp add: node_upd_pool)
qed

lemma update_children_block:
  assumes "free_quad_node_index t = int h" "h + 3 < length (all_quad_node t)"
  shows "update_children t qi [0, 1, 2, 3] =
    Return () (t\<lparr>all_quad_node := map_block (update (- 1) 0 qi) h (all_quad_node t)\<rparr>)"
proof -
  have "update_children t qi (map int [0, 1, 2, 3]) =
    Return () (t\<lparr>all_quad_node :=
      fold (\<lambda>k xs. xs[h + k := update (- 1) 0 qi (xs ! (h + k))]) [0, 1, 2, 3] (all_quad_node t)\<rparr>)"
    using assms by (intro update_children_fold) auto
  moreover have "fold (\<lambda>k xs. xs[h + k := update (- 1) 0 qi (xs ! (h + k))]) [0, 1, 2, 3] (all_quad_node t)
     = map_block (update (- 1) 0 qi) h (all_quad_node t)"
    using assms(2) by (auto intro!: nth_equalityI simp: nth_list_update)
  ultimately show ?thesis by simp
qed

lemma set_branch_append:
  assumes "free_quad_node_index t = - 1" "q < length (all_quad_node t)"
  shows "set_branch t q qi =
    Return () (t\<lparr>num_quad_node_in_use := num_quad_node_in_use t + 4,
                  all_quad_node := (all_quad_node t)
                     [q := (all_quad_node t ! q)\<lparr>total_entity := - 1,
                                               first_child := int (length (all_quad_node t))\<rparr>] @ replicate 4 (QuadNode qi)\<rparr>)"
  using assms by (simp add: set_branch_def node_upd_pool Let_def)

lemma set_branch_reuse:
  assumes "free_quad_node_index t = int h" "h + 3 < length (all_quad_node t)"
    "q < length (all_quad_node t)" "q < h \<or> h + 3 < q"
  shows "set_branch t q qi =
    Return () (t\<lparr>num_quad_node_in_use := num_quad_node_in_use t + 4,
                  free_quad_node_index := first_child (all_quad_node t ! h),
                  all_quad_node := map_block (update (- 1) 0 qi) h
                     ((all_quad_node t)[q := (all_quad_node t ! q)\<lparr>total_entity := - 1,
                                               first_child := int h\<rparr>])\<rparr>)"
proof -
  let ?t3 = "t\<lparr>num_quad_node_in_use := num_quad_node_in_use t + 4,
      all_quad_node := (all_quad_node t)[q := (all_quad_node t ! q)\<lparr>total_entity := - 1,
                                               first_child := int h\<rparr>]\<rparr>"
  have h: "free_quad_node_index ?t3 = int h" "h + 3 < length (all_quad_node ?t3)"
    using assms by simp_all
  have nh: "int h \<noteq> - 1" by simp
  have qh: "q \<noteq> h" using assms(4) by auto
  show ?thesis
    unfolding set_branch_def Let_def
    using assms(1-3) nh qh update_children_block[OF h, of qi]
    by (simp add: node_upd_pool del: update_children.simps)
qed

lemma tree_new_init: "init [100, 100] (Some 12) False = Inr tree_new"
  by (simp add: init_def tree_new_def)

lemma tree_split_set_branch: "set_branch tree_new 0 0 = Return () tree_split"
  by (simp add: set_branch_append tree_new_def tree_split_def QuadNode_def numeral_eq_Suc)

lemma tree_split2_set_branch: "set_branch tree_split 4 4 = Return () tree_split2"
  by (simp add: set_branch_append tree_split_def tree_split2_def QuadNode_def numeral_eq_Suc)

lemma split_then_free_example:
  "set_free_quad_node tree_split 1 =
     Return () (tree_new\<lparr>free_quad_node_index := 1,
       all_quad_node := [QuadNode 0, set_free (- 1) (QuadNode 0), set_free (- 1) (QuadNode 0),
          set_free (- 1) (QuadNode 0), set_free (- 1) (QuadNode 0)]\<rparr>)"
  by (simp add: set_free_quad_node_def tree_split_def tree_new_def QuadNode_def py_index_def
      node_upd_def set_free_def)

subsection \<open>Splitting a leaf and freeing the block again\<close>

text \<open>On the tree just constructed the free list is empty. Splitting the root appends
  the block 1..4; freeing that block puts it on the free list, so the head of the free
  list is 1 afterwards and not the -1 it was before the split.\<close>

theorem split_then_free_head_counterexample:
  "set_branch tree_new 0 0 = Return () tree_split \<and>
   returned (set_free_quad_node tree_split (first_child (all_quad_node tree_split ! 0))) \<and>
   free_quad_node_index (tree_of (set_free_quad_node tree_split (first_child (all_quad_node tree_split ! 0)))) = 1 \<and>
   free_quad_node_index tree_new = - 1"
proof -
  have "first_child (all_quad_node tree_split ! 0) = 1"
    by (simp add: tree_split_def)
  then show ?thesis
    by (simp add: tree_split_set_branch split_then_free_example returned_def tree_of_def)
      (simp add: tree_new_def)
qed

text \<open>Claim C3, as amended: take a node \<open>q\<close> of a pool whose free list is either empty
  (with a pool of 1 + 4k slots) or headed by a block of four slots that does not hold
  \<open>q\<close>. Then \<open>set_branch\<close> on \<open>q\<close> followed by \<open>set_free_quad_node\<close> on the block it
  assigned both return; the in-use counter is back at its value before the split, the
  node's \<open>first_child\<close> is -1 and its \<open>total_entity\<close> is 0 (the values of an empty leaf),
  and the head of the free list is back at its old value when the free list was not
  empty, and is the index of the appended block when it was.\<close>

theorem split_then_free:
  assumes q: "q < length (all_quad_node t)"
    and fl: "free_quad_node_index t = - 1 \<and> length (all_quad_node t) mod 4 = 1 \<or>
       (\<exists>h. free_quad_node_index t = int h \<and> h mod 4 = 1 \<and> h + 3 < length (all_quad_node t) \<and>
            (q < h \<or> h + 3 < q))"
  shows "\<exists>t1 t2. set_branch t q (int q) = Return () t1 \<and>
      set_free_quad_node t1 (first_child (all_quad_node t1 ! q)) = Return () t2 \<and>
      num_quad_node_in_use t2 = num_quad_node_in_use t \<and>
      first_child (all_quad_node t2 ! q) = - 1 \<and>
      total_entity (all_quad_node t2 ! q) = 0 \<and>
      free_quad_node_index t2 =
        (if free_quad_node_index t = - 1 then int (length (all_quad_node t))
         else free_quad_node_index t)"
proof -
  consider (empty) "free_quad_node_index t = - 1" "length (all_quad_node t) mod 4 = 1"
    | (reuse) h where "free_quad_node_index t = int h" "h mod 4 = 1"
        "h + 3 < length (all_quad_node t)" "q < h \<or> h + 3 < q"
    using fl by blast
  then show ?thesis
  proof cases
  case empty
  then have e: "free_quad_node_index t = - 1" and m: "length (all_quad_node t) mod 4 = 1"
    by simp_all
  let ?c = "length (all_quad_node t)"
  let ?t1 = "t\<lparr>num_quad_node_in_use := num_quad_node_in_use t + 4,
                  all_quad_node := (all_quad_node t)
                     [q := (all_quad_node t ! q)\<lparr>total_entity := - 1,
                                               first_child := int ?c\<rparr>] @ replicate 4 (QuadNode (int q))\<rparr>"
  have 1: "set_branch t q (int q) = Return () ?t1"
    using e q by (rule set_branch_append)
  have fc: "first_child (all_quad_node ?t1 ! q) = int ?c"
    using q by (simp add: nth_append)
  have 2: "set_free_quad_node ?t1 (int ?c) = Return () (?t1\<lparr>free_quad_node_index := int ?c,
                  num_quad_node_in_use := num_quad_node_in_use ?t1 - 4,
                  all_quad_node := (map_block (set_free (free_quad_node_index ?t1)) ?c (all_quad_node ?t1))
                     [q := (all_quad_node ?t1 ! q)\<lparr>first_child := - 1, total_entity := 0\<rparr>]\<rparr>)"
    using q m by (intro set_free_quad_node_block) (simp_all add: nth_append QuadNode_def)
  show ?thesis
    apply (rule exI, rule exI, rule conjI, rule 1)
    apply (simp only: fc)
    apply (rule conjI, rule 2)
    using q e apply simp
    done
next
  case reuse
  then have e: "free_quad_node_index t = int h" and m: "h mod 4 = 1"
    and hl: "h + 3 < length (all_quad_node t)" and qh: "q < h \<or> h + 3 < q"
    by simp_all
  let ?t1 = "t\<lparr>num_quad_node_in_use := num_quad_node_in_use t + 4,
                  free_quad_node_index := first_child (all_quad_node t ! h),
                  all_quad_node := map_block (update (- 1) 0 (int q)) h
                     ((all_quad_node t)[q := (all_quad_node t ! q)\<lparr>total_entity := - 1,
                                               first_child := int h\<rparr>])\<rparr>"
  have 1: "set_branch t q (int q) = Return () ?t1"
    using e hl q qh by (rule set_branch_reuse)
  have fc: "first_child (all_quad_node ?t1 ! q) = int h"
    using q qh by auto
  have 2: "set_free_quad_node ?t1 (int h) = Return () (?t1\<lparr>free_quad_node_index := int h,
                  num_quad_node_in_use := num_quad_node_in_use ?t1 - 4,
                  all_quad_node := (map_block (set_free (free_quad_node_index ?t1)) h (all_quad_node ?t1))
                     [q := (all_quad_node ?t1 ! q)\<lparr>first_child := - 1, total_entity := 0\<rparr>]\<rparr>)"
    using q m hl qh by (intro set_free_quad_node_block) (auto simp: update_def)
  have nh: "int h \<noteq> - 1" by simp
  show ?thesis
    apply (rule exI, rule exI, rule conjI, rule 1)
    apply (simp only: fc)
    apply (rule conjI, rule 2)
    using q e nh apply simp
    done
qed
qed

theorem split_then_free_witness:
  "\<exists>t1 t2. set_branch tree_new 0 (int 0) = Return () t1 \<and>
      set_free_quad_node t1 (first_child (all_quad_node t1 ! 0)) = Return () t2 \<and>
      num_quad_node_in_use t2 = 1 \<and>
      first_child (all_quad_node t2 ! 0) = - 1 \<and>
      total_entity (all_quad_node t2 ! 0) = 0 \<and>
      free_quad_node_index t2 = 1"
  using split_then_free[of 0 tree_new] by (simp add: tree_new_def)

subsection \<open>Collapsing a branch of empty leaves\<close>

lemma sum_children_unchanged:
  assumes "\<forall>k\<in>set ks. c + k < length (all_quad_node t) \<and> f t (c + k) = Return (r k) t"
  shows "sum_children f t (int c) (map int ks) = Return (sum_list (map r ks)) t"
  using assms
proof (induction ks)
  case Nil
  then show ?case by simp
next
  case (Cons k ks)
  have idx: "py_index (all_quad_node t) (int c + int k) = Some (c + k)"
    using Cons.prems py_index_nat[of "all_quad_node t" "c + k"] by simp
  show ?case
    using Cons idx by simp
qed

lemma clean_unused_qnode_empty_leaf:
  assumes "in_use (all_quad_node t ! x)" "total_entity (all_quad_node t ! x) = 0"
  shows "clean_unused_qnode (Suc d) t x = Return 1 t"
  using assms by (simp add: is_leaf_def is_branch_def)

text \<open>Claim C5, as amended: let \<open>q\<close> be a branch in use whose four children, at the block
  \<open>c .. c+3\<close>, are empty leaves in use. Then the cleaning of \<open>q\<close> frees the block and
  leaves \<open>q\<close> with \<open>total_entity = 0\<close>; its \<open>first_child\<close> is the sentinel -1 when \<open>q\<close> is
  not the root, and 1 when \<open>q\<close> is the root, which the source resets on purpose after the
  block is freed.\<close>

theorem clean_up_collapse:
  assumes q: "q < length (all_quad_node t)"
    and br: "in_use (all_quad_node t ! q)" "is_branch (all_quad_node t ! q)"
    and fc: "first_child (all_quad_node t ! q) = int c" "c mod 4 = 1"
       "c + 3 < length (all_quad_node t)" "q < c \<or> c + 3 < q"
    and par: "parent_index (all_quad_node t ! c) = int q"
    and ch: "\<forall>k<4. in_use (all_quad_node t ! (c + k)) \<and> total_entity (all_quad_node t ! (c + k)) = 0"
  shows "\<exists>t'. clean_unused_qnode (Suc (Suc d)) t q = Return 1 t' \<and>
      first_child (all_quad_node t' ! q) = (if q = 0 then 1 else - 1) \<and>
      total_entity (all_quad_node t' ! q) = 0 \<and>
      (\<forall>k<4. \<not> in_use (all_quad_node t' ! (c + k))) \<and>
      free_quad_node_index t' = int c \<and>
      num_quad_node_in_use t' = num_quad_node_in_use t - 4"
proof -
  let ?t2 = "t\<lparr>free_quad_node_index := int c,
                  num_quad_node_in_use := num_quad_node_in_use t - 4,
                  all_quad_node := (map_block (set_free (free_quad_node_index t)) c (all_quad_node t))
                     [q := (all_quad_node t ! q)\<lparr>first_child := - 1, total_entity := 0\<rparr>]\<rparr>"
  have "\<forall>k\<in>set [0, 1, 2, 3]. c + k < length (all_quad_node t) \<and>
       clean_unused_qnode (Suc d) t (c + k) = Return ((\<lambda>_. 1) k) t"
  proof
    fix k :: nat
    assume "k \<in> set [0, 1, 2, 3]"
    then have k: "k < 4" by auto
    then have "in_use (all_quad_node t ! (c + k))" "total_entity (all_quad_node t ! (c + k)) = 0"
      using ch by simp_all
    then have "clean_unused_qnode (Suc d) t (c + k) = Return 1 t"
      by (rule clean_unused_qnode_empty_leaf)
    then show "c + k < length (all_quad_node t) \<and>
       clean_unused_qnode (Suc d) t (c + k) = Return ((\<lambda>_. 1) k) t"
      using k fc(3) by simp
  qed
  then have "sum_children (clean_unused_qnode (Suc d)) t (int c) (map int [0, 1, 2, 3])
      = Return (sum_list (map (\<lambda>_. 1) [0, 1, 2, 3 :: nat])) t"
    by (rule sum_children_unchanged)
  then have s: "sum_children (clean_unused_qnode (Suc d)) t (int c) [0, 1, 2, 3] = Return 4 t"
    by simp
  have f: "set_free_quad_node t (int c) = Return () ?t2"
    using q fc(1,3,4,2) par by (rule set_free_quad_node_block)
  have nb: "\<not> is_leaf (all_quad_node t ! q)"
    using br(2) by (simp add: is_leaf_def is_branch_def)
  have run: "clean_unused_qnode (Suc (Suc d)) t q =
      (if q = 0 then Return 1 (node_upd ?t2 q (\<lambda>n. n\<lparr>first_child := 1\<rparr>)) else Return 1 ?t2)"
    using br nb fc(1) s f
    by (simp del: sum_children.simps clean_unused_qnode.simps(2)
        add: clean_unused_qnode.simps(2)[of "Suc d" t q] Let_def)
  show ?thesis
  proof (cases "q = 0")
    case True
    then show ?thesis
      using run q fc(3,4) by (auto simp: set_free_def)
  next
    case False
    then show ?thesis
      using run q fc(3,4) by (auto simp: set_free_def)
  qed
qed

text \<open>The root of \<open>tree_split\<close> is a branch over four empty leaves. \<open>clean_up\<close> collapses it
  and returns; the root's \<open>first_child\<close> is then 1, not the sentinel -1.\<close>

theorem clean_up_root_counterexample:
  "returned (clean_up 2 tree_split) \<and>
   first_child (all_quad_node (tree_of (clean_up 2 tree_split)) ! 0) = 1"
  by (simp add: clean_up_def numeral_2_eq_2 tree_split_def QuadNode_def is_leaf_def is_branch_def
      py_index_def set_free_quad_node_def node_upd_def set_free_def returned_def tree_of_def Let_def)

theorem clean_up_collapse_witness:
  "(\<exists>t'. clean_unused_qnode (Suc (Suc 0)) tree_split2 4 = Return 1 t' \<and>
      first_child (all_quad_node t' ! 4) = - 1 \<and>
      total_entity (all_quad_node t' ! 4) = 0 \<and>
      (\<forall>k<4. \<not> in_use (all_quad_node t' ! (5 + k))) \<and>
      free_quad_node_index t' = 5 \<and>
      num_quad_node_in_use t' = 5) \<and>
   (\<exists>t'. clean_unused_qnode (Suc (Suc 0)) tree_split 0 = Return 1 t' \<and>
      first_child (all_quad_node t' ! 0) = 1 \<and>
      total_entity (all_quad_node t' ! 0) = 0 \<and>
      (\<forall>k<4. \<not> in_use (all_quad_node t' ! (1 + k))) \<and>
      free_quad_node_index t' = 1 \<and>
      num_quad_node_in_use t' = 1)"
proof -
  have four: "\<And>P. (\<forall>k<4::nat. P k) \<longleftrightarrow> P 0 \<and> P 1 \<and> P 2 \<and> P 3"
    by (auto simp: less_Suc_eq numeral_eq_Suc)
  have a: "4 < length (all_quad_node tree_split2)" "in_use (all_quad_node tree_split2 ! 4)"
    "is_branch (all_quad_node tree_split2 ! 4)" "first_child (all_quad_node tree_split2 ! 4) = int 5"
    "(5::nat) mod 4 = 1" "5 + 3 < length (all_quad_node tree_split2)" "(4::nat) < 5 \<or> 5 + 3 < (4::nat)"
    "parent_index (all_quad_node tree_split2 ! 5) = int 4"
    "\<forall>k<4. in_use (all_quad_node tree_split2 ! (5 + k)) \<and> total_entity (all_quad_node tree_split2 ! (5 + k)) = 0"
    by (simp_all add: tree_split2_def is_branch_def QuadNode_def four)
  have b: "0 < length (all_quad_node tree_split)" "in_use (all_quad_node tree_split ! 0)"
    "is_branch (all_quad_node tree_split ! 0)" "first_child (all_quad_node tree_split ! 0) = int 1"
    "(1::nat) mod 4 = 1" "1 + 3 < length (all_quad_node tree_split)" "(0::nat) < 1 \<or> 1 + 3 < (0::nat)"
    "parent_index (all_quad_node tree_split ! 1) = int 0"
    "\<forall>k<4. in_use (all_quad_node tree_split ! (1 + k)) \<and> total_entity (all_quad_node tree_split ! (1 + k)) = 0"
    by (simp_all add: tree_split_def is_branch_def QuadNode_def four)
  have n: "num_quad_node_in_use tree_split2 - 4 = 5" "num_quad_node_in_use tree_split - 4 = 1"
    by (simp_all add: tree_split2_def tree_split_def)
  show ?thesis
    using clean_up_collapse[OF a, of 0] clean_up_collapse[OF b, of 0] n
    by (simp del: clean_unused_qnode.simps)
qed

subsection \<open>Searches on the empty tree and outside of the root region\<close>

lemma find_quad_node_loop_root:
  assumes "all_quad_node t \<noteq> []" "in_use (all_quad_node t ! 0)"
    "is_leaf (all_quad_node t ! 0) \<or> contained_quadrants g b (all_quad_node t ! 0) (bbox t) = []"
  shows "find_quad_node_loop g t b (Suc fuel) [(0, bbox t)] [] = Some (Inr [(0, 0, bbox t)])"
proof -
  have i: "py_index (all_quad_node t) 0 = Some 0"
    using assms(1) by (simp add: py_index_def)
  have e: "\<And>cs. find_quad_node_loop g t b fuel [] cs = Some (Inr cs)"
    by (cases fuel) simp_all
  show ?thesis
    using assms(2,3) i e by (auto simp: Let_def)
qed

text \<open>Claim C8, as amended: the source has no NotFound error. When the root is in use and
  is a leaf (the empty tree), or when no quadrant of the whole-tree box passes the two
  tests against the reference box (as for a reference box outside of the root region),
  \<open>find_quad_node\<close> returns the root with the whole-tree box, and \<open>find_leaves\<close> on the
  box is \<open>find_leaves\<close> on the root; on the empty tree that is the list holding the
  root alone.\<close>

theorem find_root_without_error:
  assumes "all_quad_node t \<noteq> []" "in_use (all_quad_node t ! 0)"
    "is_leaf (all_quad_node t ! 0) \<or> contained_quadrants g b (all_quad_node t ! 0) (bbox t) = []"
  shows "find_quad_node g t (Suc fuel) b = Some (Inr (0, 0, bbox t)) \<and>
    find_leaves g t (Suc fuel) None (Some b) = find_leaves g t (Suc fuel) (Some 0) None \<and>
    (is_leaf (all_quad_node t ! 0) \<longrightarrow>
       find_leaves g t (Suc fuel) None (Some b) = Some (Inr [(0, 0, bbox t)]))"
proof -
  have fq: "find_quad_node g t (Suc fuel) b = Some (Inr (0, 0, bbox t))"
    unfolding find_quad_node_def find_quad_node_loop_root[OF assms]
    by (simp add: py_min_def)
  have i: "py_index (all_quad_node t) 0 = Some 0"
    using assms(1) by (simp add: py_index_def)
  have e: "\<And>cs. find_leaves_loop g t fuel [] cs = Some (Inr cs)"
    by (cases fuel) simp_all
  have fl: "find_leaves g t (Suc fuel) None (Some b) = find_leaves_loop g t (Suc fuel) [(0, bbox t)] []"
    by (simp add: find_leaves_def fq del: find_leaves_loop.simps)
  have fr: "find_leaves g t (Suc fuel) (Some 0) None = find_leaves_loop g t (Suc fuel) [(0, bbox t)] []"
    by (simp add: find_leaves_def get_bbox_def del: find_leaves_loop.simps)
  have leaf: "is_leaf (all_quad_node t ! 0) \<Longrightarrow>
      find_leaves_loop g t (Suc fuel) [(0, bbox t)] [] = Some (Inr [(0, 0, bbox t)])"
    using assms(2) i e by (simp add: Let_def)
  show ?thesis
    using fq fl fr leaf by (simp del: find_leaves_loop.simps)
qed

text \<open>On the tree just constructed, with a reference box outside of the root region, both
  searches return a result: the root with the whole-tree box.\<close>

theorem find_no_NotFound_counterexample:
  "find_quad_node plane_geometry tree_new 1 \<lparr>box_x = 200, box_y = 200, box_w = 1, box_h = 1\<rparr>
     = Some (Inr (0, 0, \<lparr>box_x = 0, box_y = 0, box_w = 100, box_h = 100\<rparr>)) \<and>
   find_leaves plane_geometry tree_new 1 None (Some \<lparr>box_x = 200, box_y = 200, box_w = 1, box_h = 1\<rparr>)
     = Some (Inr [(0, 0, \<lparr>box_x = 0, box_y = 0, box_w = 100, box_h = 100\<rparr>)])"
  by (simp add: find_quad_node_def find_leaves_def tree_new_def QuadNode_def py_index_def is_leaf_def
      py_min_def)

theorem find_root_without_error_witness:
  "find_quad_node plane_geometry tree_split (Suc 0) \<lparr>box_x = 200, box_y = 200, box_w = 1, box_h = 1\<rparr>
     = Some (Inr (0, 0, bbox tree_split)) \<and>
   find_leaves plane_geometry tree_split (Suc 0) None (Some \<lparr>box_x = 200, box_y = 200, box_w = 1, box_h = 1\<rparr>)
     = find_leaves plane_geometry tree_split (Suc 0) (Some 0) None"
proof -
  have "contained_quadrants plane_geometry \<lparr>box_x = 200, box_y = 200, box_w = 1, box_h = 1\<rparr>
      (all_quad_node tree_split ! 0) (bbox tree_split) = []"
    by (simp add: contained_quadrants_def plane_geometry_def box_split_def box_intersecting_def
        box_inscribed_def tree_split_def enumerate_eq_zip)
  then show ?thesis
    using find_root_without_error[of tree_split plane_geometry
        "\<lparr>box_x = 200, box_y = 200, box_w = 1, box_h = 1\<rparr>" 0]
    by (simp add: tree_split_def is_leaf_def)
qed

subsection \<open>The box of a node, and the leaves under a box\<close>

text \<open>Claim C2 at a concrete tree: the root of \<open>tree_split2\<close> is split, and so is its child
  4 (quadrant 3), whose first child is node 5 (quadrant 0). \<open>get_bbox\<close> applies the
  quadrants in the order it collected them, from the node up to the root: it takes
  quadrant 0 of the whole-tree box and then quadrant 3 of that. The box of node 5, from
  the root down to the node, is quadrant 0 of quadrant 3, and this is the box with which
  \<open>find_quad_node\<close> reaches the same node.\<close>

theorem get_bbox_order_example:
  "get_bbox plane_geometry tree_split2 2 5
     = Some (Inr (5, \<lparr>box_x = 25, box_y = 25, box_w = 25, box_h = 25\<rparr>)) \<and>
   box_split (box_split (bbox tree_split2) ! 3) ! 0
     = \<lparr>box_x = 50, box_y = 50, box_w = 25, box_h = 25\<rparr> \<and>
   find_quad_node plane_geometry tree_split2 3 \<lparr>box_x = 60, box_y = 60, box_w = 1, box_h = 1\<rparr>
     = Some (Inr (5, 5, \<lparr>box_x = 50, box_y = 50, box_w = 25, box_h = 25\<rparr>))"
proof -
  have a: "get_bbox plane_geometry tree_split2 2 5
     = Some (Inr (5, \<lparr>box_x = 25, box_y = 25, box_w = 25, box_h = 25\<rparr>))"
    by (simp add: get_bbox_def tree_split2_def QuadNode_def numeral_2_eq_2 py_index_def
        select_quadrant_def plane_geometry_def box_split_def enumerate_eq_zip Let_def)
  have b: "box_split (box_split (bbox tree_split2) ! 3) ! 0
     = \<lparr>box_x = 50, box_y = 50, box_w = 25, box_h = 25\<rparr>"
    by (simp add: tree_split2_def box_split_def Let_def)
  have c: "find_quad_node plane_geometry tree_split2 3 \<lparr>box_x = 60, box_y = 60, box_w = 1, box_h = 1\<rparr>
     = Some (Inr (5, 5, \<lparr>box_x = 50, box_y = 50, box_w = 25, box_h = 25\<rparr>))"
    by (simp add: find_quad_node_def tree_split2_def QuadNode_def numeral_3_eq_3 py_index_def
        contained_quadrants_def plane_geometry_def box_split_def box_intersecting_def
        box_inscribed_def enumerate_eq_zip Let_def is_leaf_def py_min_def area_def)
  show ?thesis using a b c by simp
qed

text \<open>Claim C6 at a concrete tree: the root of \<open>tree_split\<close> is split into four leaves. The
  reference box lies across the two upper quadrants, so the containing node is the root.
  The loop of \<open>find_leaves\<close> tests each quadrant against the box of its own parent, not
  against the reference box, and returns all four leaves, two of which do not overlap
  the reference box.\<close>

theorem find_leaves_overlap_example:
  "find_leaves plane_geometry tree_split 5 None (Some \<lparr>box_x = 40, box_y = 10, box_w = 20, box_h = 5\<rparr>)
     = Some (Inr [(4, 4, \<lparr>box_x = 50, box_y = 50, box_w = 50, box_h = 50\<rparr>),
                  (3, 3, \<lparr>box_x = 0, box_y = 50, box_w = 50, box_h = 50\<rparr>),
                  (2, 2, \<lparr>box_x = 50, box_y = 0, box_w = 50, box_h = 50\<rparr>),
                  (1, 1, \<lparr>box_x = 0, box_y = 0, box_w = 50, box_h = 50\<rparr>)]) \<and>
   \<not> box_intersecting \<lparr>box_x = 40, box_y = 10, box_w = 20, box_h = 5\<rparr>
       \<lparr>box_x = 50, box_y = 50, box_w = 50, box_h = 50\<rparr> \<and>
   \<not> box_intersecting \<lparr>box_x = 40, box_y = 10, box_w = 20, box_h = 5\<rparr>
       \<lparr>box_x = 0, box_y = 50, box_w = 50, box_h = 50\<rparr>"
proof -
  have fq: "find_quad_node plane_geometry tree_split 5 \<lparr>box_x = 40, box_y = 10, box_w = 20, box_h = 5\<rparr>
     = Some (Inr (0, 0, \<lparr>box_x = 0, box_y = 0, box_w = 100, box_h = 100\<rparr>))"
    by (simp add: find_quad_node_def tree_split_def QuadNode_def eval_nat_numeral py_index_def
        contained_quadrants_def plane_geometry_def box_split_def box_intersecting_def
        box_inscribed_def enumerate_eq_zip Let_def is_leaf_def py_min_def area_def)
  show ?thesis
    by (simp add: find_leaves_def fq del: find_leaves_loop.simps)
       (simp add: tree_split_def QuadNode_def eval_nat_numeral py_index_def
        overlapping_quadrants_def plane_geometry_def box_split_def box_intersecting_def
        enumerate_eq_zip Let_def is_leaf_def)
qed

subsection \<open>The result of find_quad_node\<close>

lemma first_leastI:
  "cs = pre @ r # post \<Longrightarrow> \<forall>c\<in>set pre. key r < key c \<Longrightarrow> \<forall>c\<in>set post. key r \<le> key c
    \<Longrightarrow> first_least key cs r"
  unfolding first_least_def by (intro exI conjI)

lemma first_leastE:
  assumes "first_least key cs r"
  obtains pre post where "cs = pre @ r # post" "\<forall>c\<in>set pre. key r < key c"
    "\<forall>c\<in>set post. key r \<le> key c"
  using assms unfolding first_least_def by (elim exE conjE)

lemma first_least_head: "first_least key (c # cs) r \<Longrightarrow> key r \<le> key c"
proof (erule first_leastE)
  fix pre post
  assume d: "c # cs = pre @ r # post" and p: "\<forall>x\<in>set pre. key r < key x"
  show "key r \<le> key c"
  proof (cases pre)
    case Nil
    then show ?thesis using d by simp
  next
    case (Cons a pre')
    then have "c \<in> set pre" using d by simp
    then show ?thesis using p by force
  qed
qed

lemma min_by_first_least: "first_least key (best # cs) (min_by key best cs)"
proof (induction cs arbitrary: best)
  case Nil
  show ?case
    by (rule first_leastI[of _ "[]" _ "[]"]) simp_all
next
  case (Cons c cs)
  show ?case
  proof (cases "key c < key best")
    case True
    let ?r = "min_by key c cs"
    have IH: "first_least key (c # cs) ?r" by (rule Cons.IH)
    have lt: "key ?r < key best"
      using first_least_head[OF IH] True by simp
    have "first_least key (best # c # cs) ?r"
    proof (rule first_leastE[OF IH])
      fix pre post
      assume d: "c # cs = pre @ ?r # post" and p: "\<forall>x\<in>set pre. key ?r < key x"
        and q: "\<forall>x\<in>set post. key ?r \<le> key x"
      show ?thesis
      proof (rule first_leastI[of _ "best # pre" _ post])
        show "best # c # cs = (best # pre) @ ?r # post" using d by simp
        show "\<forall>x\<in>set (best # pre). key ?r < key x" using p lt by simp
        show "\<forall>x\<in>set post. key ?r \<le> key x" by (rule q)
      qed
    qed
    then show ?thesis using True by simp
  next
    case False
    define r where "r = min_by key best cs"
    have IH: "first_least key (best # cs) r" unfolding r_def by (rule Cons.IH)
    have "first_least key (best # c # cs) r"
    proof (rule first_leastE[OF IH])
      fix pre post
      assume d: "best # cs = pre @ r # post" and p: "\<forall>x\<in>set pre. key r < key x"
        and q: "\<forall>x\<in>set post. key r \<le> key x"
      show ?thesis
      proof (cases pre)
        case Nil
        then have e: "r = best" "post = cs" using d by simp_all
        show ?thesis
        proof (rule first_leastI[of _ "[]" _ "c # cs"])
          show "best # c # cs = [] @ r # c # cs" using e by simp
          show "\<forall>x\<in>set []. key r < key x" by simp
          show "\<forall>x\<in>set (c # cs). key r \<le> key x" using q e False by simp
        qed
      next
        case (Cons a pre')
        then have a: "a = best" and d': "cs = pre' @ r # post" using d by simp_all
        have "key r < key best" using p Cons a by simp
        then have lt: "key r < key c" using False by simp
        show ?thesis
        proof (rule first_leastI[of _ "best # c # pre'" _ post])
          show "best # c # cs = (best # c # pre') @ r # post" using d' by simp
          show "\<forall>x\<in>set (best # c # pre'). key r < key x" using p Cons a lt by simp
          show "\<forall>x\<in>set post. key r \<le> key x" by (rule q)
        qed
      qed
    qed
    then show ?thesis using False by (simp add: r_def)
  qed
qed

lemma py_min_first_least:
  assumes "py_min key cs = Inr r"
  shows "first_least key cs r"
proof (cases cs)
  case Nil
  then show ?thesis using assms by (simp add: py_min_def)
next
  case (Cons c rest)
  then have "r = min_by key c rest" using assms by (simp add: py_min_def)
  then show ?thesis using min_by_first_least[of key c rest] Cons by simp
qed

lemma contained_quadrants_admitted:
  "e \<in> set (contained_quadrants g b n qbbox) \<Longrightarrow> admitted g t b (snd e)"
  by (auto simp: contained_quadrants_def admitted_def)

lemma find_quad_node_loop_recorded:
  assumes "find_quad_node_loop g t b fuel to_process cs = Some (Inr cs')"
    "\<forall>e\<in>set to_process. admitted g t b (snd e)" "\<forall>c\<in>set cs. recorded g t b c"
  shows "\<forall>c\<in>set cs'. recorded g t b c"
  using assms
proof (induction fuel arbitrary: to_process cs)
  case 0
  then show ?case by (simp split: if_splits)
next
  case (Suc fuel)
  show ?case
  proof (cases "to_process = []")
    case True
    then show ?thesis using Suc.prems by simp
  next
    case False
    obtain qindex qbbox where l: "last to_process = (qindex, qbbox)"
      by (cases "last to_process")
    have adm: "admitted g t b qbbox"
      using Suc.prems(2) False l last_in_set[of to_process] by force
    have rest: "\<forall>e\<in>set (butlast to_process). admitted g t b (snd e)"
      using Suc.prems(2) by (meson in_set_butlastD)
    show ?thesis
    proof (cases "py_index (all_quad_node t) qindex")
      case None
      then show ?thesis using Suc.prems(1) False l by simp
    next
      case (Some qnode)
      let ?n = "all_quad_node t ! qnode"
      show ?thesis
      proof (cases "in_use ?n")
        case nu: False
        then have "find_quad_node_loop g t b fuel (butlast to_process) cs = Some (Inr cs')"
          using Suc.prems(1) False l Some by simp
        then show ?thesis using rest Suc.prems(3) by (rule Suc.IH)
      next
        case u: True
        have rec: "\<forall>c\<in>set (cs @ [(qindex, qnode, qbbox)]). recorded g t b c"
          using Suc.prems(3) Some u adm by (simp add: recorded_def)
        show ?thesis
        proof (cases "is_leaf ?n")
          case True
          then have "find_quad_node_loop g t b fuel (butlast to_process)
              (cs @ [(qindex, qnode, qbbox)]) = Some (Inr cs')"
            using Suc.prems(1) False l Some u by simp
          then show ?thesis using rest rec by (rule Suc.IH)
        next
          case nl: False
          then have run: "find_quad_node_loop g t b fuel
              (butlast to_process @ contained_quadrants g b ?n qbbox)
              (cs @ [(qindex, qnode, qbbox)]) = Some (Inr cs')"
            using Suc.prems(1) False l Some u by simp
          have "\<forall>e\<in>set (butlast to_process @ contained_quadrants g b ?n qbbox).
              admitted g t b (snd e)"
            using rest contained_quadrants_admitted[of _ g b ?n qbbox t] by auto
          then show ?thesis using run rec Suc.IH by blast
        qed
      qed
    qed
  qed
qed

text \<open>Whenever \<open>find_quad_node\<close> returns a candidate, on any pool whatever, the traversal
  has ended with a list of recorded candidates in which the result is the first of
  least area, and the result is a recorded candidate.\<close>

lemma find_quad_node_partial:
  assumes "find_quad_node g t fuel b = Some (Inr r)"
  shows "\<exists>candidates. find_quad_node_loop g t b fuel [(0, bbox t)] [] = Some (Inr candidates) \<and>
     first_least area candidates r \<and> recorded g t b r"
proof -
  obtain candidates where
    run: "find_quad_node_loop g t b fuel [(0, bbox t)] [] = Some (Inr candidates)"
    and m: "py_min area candidates = Inr r"
    using assms by (auto simp: find_quad_node_def split: option.splits sum.splits)
  have fl: "first_least area candidates r"
    using m by (rule py_min_first_least)
  have "\<forall>c\<in>set candidates. recorded g t b c"
    using run by (rule find_quad_node_loop_recorded) (simp_all add: admitted_def)
  moreover have "r \<in> set candidates"
    using fl by (auto simp: first_least_def)
  ultimately have "recorded g t b r" by blast
  then show ?thesis using run fl by blast
qed

subsection \<open>The invariant of the pool\<close>

lemma free_chain_cong:
  assumes "length ys = length xs"
    "\<forall>b\<in>set bs. \<forall>j. b \<le> j \<and> j < b + 4 \<longrightarrow> ys ! j = xs ! j"
  shows "free_chain ys h bs = free_chain xs h bs"
  using assms(2)
proof (induction bs arbitrary: h)
  case Nil
  show ?case by simp
next
  case (Cons b bs)
  have b: "\<forall>j. b \<le> j \<and> j < b + 4 \<longrightarrow> ys ! j = xs ! j"
    using Cons.prems by simp
  then have "ys ! b = xs ! b" by simp
  moreover have "\<And>h. free_chain ys h bs = free_chain xs h bs"
    using Cons.prems by (intro Cons.IH) simp
  ultimately show ?case using b assms(1) by simp
qed

lemma free_chain_not_in_use:
  "free_chain xs h bs \<Longrightarrow> b \<in> set bs \<Longrightarrow> b \<le> j \<Longrightarrow> j < b + 4 \<Longrightarrow> \<not> in_use (xs ! j)"
  by (induction bs arbitrary: h) auto

lemma free_chain_bounds:
  "free_chain xs h bs \<Longrightarrow> b \<in> set bs \<Longrightarrow> b mod 4 = 1 \<and> b + 3 < length xs"
  by (induction bs arbitrary: h) auto

lemma blocks_disjoint:
  fixes b c :: nat
  assumes "b mod 4 = 1" "c mod 4 = 1" "b \<noteq> c" "b \<le> j" "j < b + 4"
  shows "\<not> (c \<le> j \<and> j < c + 4)"
  using assms by presburger

lemma pool_inv_init:
  assumes "init sz d a = Inr t"
  shows "pool_inv (\<lambda>_. 0) (\<lambda>_. 0) t"
proof -
  have p: "all_quad_node t = [QuadNode 0]" and h: "free_quad_node_index t = - 1"
    using assms by (auto simp: init_def split: list.splits option.splits)
  have "free_chain (all_quad_node t) (free_quad_node_index t) []"
    using h by simp
  moreover have "distinct ([] :: nat list)" by simp
  ultimately have "\<exists>bs. distinct bs \<and> free_chain (all_quad_node t) (free_quad_node_index t) bs"
    by blast
  then show ?thesis
    using p by (simp add: pool_inv_def branch_inv_def QuadNode_def is_branch_def)
qed

lemma branch_children:
  assumes "branch_inv par rank xs" "i < length xs" "in_use (xs ! i)" "is_branch (xs ! i)"
  shows "\<exists>c. first_child (xs ! i) = int c \<and> c mod 4 = 1 \<and> c + 3 < length xs \<and>
     (i < c \<or> c + 3 < i) \<and>
     (\<forall>j. c \<le> j \<and> j < c + 4 \<longrightarrow>
        in_use (xs ! j) \<and> parent_index (xs ! j) = int i \<and> par j = i \<and> rank j = Suc (rank i))"
proof -
  from assms obtain c where c: "first_child (xs ! i) = int c" "c mod 4 = 1" "c + 3 < length xs"
    and ch: "\<forall>j. c \<le> j \<and> j < c + 4 \<longrightarrow>
        in_use (xs ! j) \<and> parent_index (xs ! j) = int i \<and> par j = i \<and> rank j = Suc (rank i)"
    unfolding branch_inv_def by blast
  have "\<not> (c \<le> i \<and> i < c + 4)"
  proof
    assume "c \<le> i \<and> i < c + 4"
    then have "rank i = Suc (rank i)" using ch by blast
    then show False by simp
  qed
  then have "i < c \<or> c + 3 < i" by arith
  then show ?thesis using c ch by blast
qed

lemma pool_inv_freed:
  assumes inv: "pool_inv par rank t" and p: "p < length (all_quad_node t)"
    and u: "in_use (all_quad_node t ! p)" and br: "is_branch (all_quad_node t ! p)"
    and fc: "first_child (all_quad_node t ! p) = int c"
  shows "pool_inv par rank
     (t\<lparr>free_quad_node_index := int c,
        num_quad_node_in_use := num_quad_node_in_use t - 4,
        all_quad_node := (map_block (set_free (free_quad_node_index t)) c (all_quad_node t))
           [p := (all_quad_node t ! p)\<lparr>first_child := - 1, total_entity := 0\<rparr>]\<rparr>)"
proof -
  let ?xs = "all_quad_node t"
  let ?h = "free_quad_node_index t"
  let ?ys = "(map_block (set_free ?h) c ?xs)[p := (?xs ! p)\<lparr>first_child := - 1, total_entity := 0\<rparr>]"
  have binv: "branch_inv par rank ?xs" and len: "length ?xs mod 4 = 1" and root: "in_use (?xs ! 0)"
    and te: "\<forall>i<length ?xs. - 1 \<le> total_entity (?xs ! i)"
    using inv by (simp_all add: pool_inv_def)
  from inv obtain bs where bs: "distinct bs" "free_chain ?xs ?h bs"
    unfolding pool_inv_def by blast
  from branch_children[OF binv p u br] fc
  have c: "c mod 4 = 1" "c + 3 < length ?xs" "p < c \<or> c + 3 < p"
    and ch: "\<forall>j. c \<le> j \<and> j < c + 4 \<longrightarrow>
        in_use (?xs ! j) \<and> parent_index (?xs ! j) = int p \<and> par j = p \<and> rank j = Suc (rank p)"
    by auto
  have ly: "length ?ys = length ?xs" by simp
  have yp: "?ys ! p = (?xs ! p)\<lparr>first_child := - 1, total_entity := 0\<rparr>"
    using p by simp
  have yb: "\<And>j. c \<le> j \<Longrightarrow> j < c + 4 \<Longrightarrow> ?ys ! j = set_free ?h (?xs ! j)"
    using c by (auto simp: nth_list_update)
  have yo: "\<And>j. j < length ?xs \<Longrightarrow> j \<noteq> p \<Longrightarrow> \<not> (c \<le> j \<and> j < c + 4) \<Longrightarrow> ?ys ! j = ?xs ! j"
    by (auto simp: nth_list_update)
  have keep: "\<And>j. j < length ?xs \<Longrightarrow> \<not> (c \<le> j \<and> j < c + 4) \<Longrightarrow>
      in_use (?ys ! j) = in_use (?xs ! j) \<and> parent_index (?ys ! j) = parent_index (?xs ! j)"
  proof -
    fix j assume j: "j < length ?xs" "\<not> (c \<le> j \<and> j < c + 4)"
    show "in_use (?ys ! j) = in_use (?xs ! j) \<and> parent_index (?ys ! j) = parent_index (?xs ! j)"
    proof (cases "j = p")
      case True
      then show ?thesis using yp by simp
    next
      case False
      then show ?thesis using yo[OF j(1) False j(2)] by simp
    qed
  qed
  have b': "branch_inv par rank ?ys"
    unfolding branch_inv_def
  proof (intro allI impI)
    fix i
    assume i: "i < length ?ys" and ib: "in_use (?ys ! i) \<and> is_branch (?ys ! i)"
    have ip: "i \<noteq> p"
      using ib yp by (auto simp: is_branch_def)
    have inb: "\<not> (c \<le> i \<and> i < c + 4)"
      using ib yb[of i] by (auto simp: set_free_def)
    have same: "?ys ! i = ?xs ! i"
      using i ip inb yo by simp
    from branch_children[OF binv, of i] i ib same
    obtain ci where ci: "first_child (?xs ! i) = int ci" "ci mod 4 = 1" "ci + 3 < length ?xs"
      and chi: "\<forall>j. ci \<le> j \<and> j < ci + 4 \<longrightarrow>
        in_use (?xs ! j) \<and> parent_index (?xs ! j) = int i \<and> par j = i \<and> rank j = Suc (rank i)"
      by auto
    have "\<forall>j. ci \<le> j \<and> j < ci + 4 \<longrightarrow>
        in_use (?ys ! j) \<and> parent_index (?ys ! j) = int i \<and> par j = i \<and> rank j = Suc (rank i)"
    proof (intro allI impI)
      fix j assume j: "ci \<le> j \<and> j < ci + 4"
      then have jl: "j < length ?xs" using ci(3) by simp
      have jx: "in_use (?xs ! j) \<and> parent_index (?xs ! j) = int i \<and> par j = i \<and> rank j = Suc (rank i)"
        using chi j by blast
      have "\<not> (c \<le> j \<and> j < c + 4)"
      proof
        assume "c \<le> j \<and> j < c + 4"
        then have "parent_index (?xs ! j) = int p" using ch by blast
        then show False using jx ip by simp
      qed
      then show "in_use (?ys ! j) \<and> parent_index (?ys ! j) = int i \<and> par j = i \<and> rank j = Suc (rank i)"
        using keep[OF jl] jx by simp
    qed
    then show "\<exists>c. first_child (?ys ! i) = int c \<and> c mod 4 = 1 \<and> c + 3 < length ?ys \<and>
           (\<forall>j. c \<le> j \<and> j < c + 4 \<longrightarrow>
              in_use (?ys ! j) \<and> parent_index (?ys ! j) = int i \<and>
              par j = i \<and> rank j = Suc (rank i))"
      using ci same ly by auto
  qed
  have cnot: "c \<notin> set bs"
  proof
    assume "c \<in> set bs"
    then have "\<not> in_use (?xs ! c)"
      using free_chain_not_in_use[OF bs(2), of c c] by simp
    then show False using ch by simp
  qed
  have frame: "\<forall>b\<in>set bs. \<forall>j. b \<le> j \<and> j < b + 4 \<longrightarrow> ?ys ! j = ?xs ! j"
  proof (intro ballI allI impI)
    fix b j assume b: "b \<in> set bs" and j: "b \<le> j \<and> j < b + 4"
    have nu: "\<not> in_use (?xs ! j)"
      using free_chain_not_in_use[OF bs(2) b] j by simp
    have bb: "b mod 4 = 1" "b + 3 < length ?xs"
      using free_chain_bounds[OF bs(2) b] by simp_all
    have "j \<noteq> p" using nu u by auto
    moreover have "\<not> (c \<le> j \<and> j < c + 4)" using nu ch by blast
    moreover have "j < length ?xs" using bb j by simp
    ultimately show "?ys ! j = ?xs ! j" using yo by simp
  qed
  have chain: "free_chain ?ys ?h bs"
    using free_chain_cong[OF ly frame] bs(2) by simp
  have "free_chain ?ys (int c) (c # bs)"
    using c chain yb by (simp add: set_free_def)
  moreover have "distinct (c # bs)" using bs(1) cnot by simp
  ultimately have ex: "\<exists>bs. distinct bs \<and> free_chain ?ys (int c) bs" by blast
  have r0: "in_use (?ys ! 0)"
  proof -
    have "0 < length ?xs" using p by (cases "all_quad_node t") simp_all
    moreover have "\<not> (c \<le> 0 \<and> 0 < c + 4)" using c(1) by auto
    ultimately show ?thesis using keep[of 0] root by simp
  qed
  have te': "\<forall>i<length ?ys. - 1 \<le> total_entity (?ys ! i)"
  proof (intro allI impI)
    fix i assume i: "i < length ?ys"
    show "- 1 \<le> total_entity (?ys ! i)"
    proof (cases "i = p")
      case True
      then show ?thesis using yp by simp
    next
      case ip: False
      show ?thesis
      proof (cases "c \<le> i \<and> i < c + 4")
        case True
        then have "?ys ! i = set_free ?h (?xs ! i)" using yb by blast
        then show ?thesis using te i by (simp add: set_free_def)
      next
        case False
        then have "?ys ! i = ?xs ! i" using yo i ip by simp
        then show ?thesis using te i by simp
      qed
    qed
  qed
  show ?thesis
    unfolding pool_inv_def using len b' ex r0 te' by simp
qed

lemma pool_inv_leaf_upd:
  assumes inv: "pool_inv par rank t" and q: "q < length (all_quad_node t)"
    and u: "in_use (all_quad_node t ! q)"
    and f: "in_use (f (all_quad_node t ! q))"
      "parent_index (f (all_quad_node t ! q)) = parent_index (all_quad_node t ! q)"
      "\<not> is_branch (f (all_quad_node t ! q))"
      "- 1 \<le> total_entity (f (all_quad_node t ! q))"
  shows "pool_inv par rank (node_upd t q f)"
proof -
  let ?xs = "all_quad_node t"
  let ?ys = "?xs[q := f (?xs ! q)]"
  have binv: "branch_inv par rank ?xs" and len: "length ?xs mod 4 = 1" and root: "in_use (?xs ! 0)"
    and te: "\<forall>i<length ?xs. - 1 \<le> total_entity (?xs ! i)"
    using inv by (simp_all add: pool_inv_def)
  from inv obtain bs where bs: "distinct bs" "free_chain ?xs (free_quad_node_index t) bs"
    unfolding pool_inv_def by blast
  have keep: "\<And>j. j < length ?xs \<Longrightarrow>
      in_use (?ys ! j) = in_use (?xs ! j) \<and> parent_index (?ys ! j) = parent_index (?xs ! j)"
    using u f q by (auto simp: nth_list_update)
  have b': "branch_inv par rank ?ys"
    unfolding branch_inv_def
  proof (intro allI impI)
    fix i
    assume i: "i < length ?ys" and ib: "in_use (?ys ! i) \<and> is_branch (?ys ! i)"
    have ip: "i \<noteq> q" using ib f(3) i by auto
    then have same: "?ys ! i = ?xs ! i" by simp
    from branch_children[OF binv, of i] i ib same
    obtain ci where ci: "first_child (?xs ! i) = int ci" "ci mod 4 = 1" "ci + 3 < length ?xs"
      and chi: "\<forall>j. ci \<le> j \<and> j < ci + 4 \<longrightarrow>
        in_use (?xs ! j) \<and> parent_index (?xs ! j) = int i \<and> par j = i \<and> rank j = Suc (rank i)"
      by auto
    have "\<forall>j. ci \<le> j \<and> j < ci + 4 \<longrightarrow>
        in_use (?ys ! j) \<and> parent_index (?ys ! j) = int i \<and> par j = i \<and> rank j = Suc (rank i)"
    proof (intro allI impI)
      fix j assume j: "ci \<le> j \<and> j < ci + 4"
      then have jl: "j < length ?xs" using ci(3) by simp
      show "in_use (?ys ! j) \<and> parent_index (?ys ! j) = int i \<and> par j = i \<and> rank j = Suc (rank i)"
        using keep[OF jl] chi j by simp
    qed
    then show "\<exists>c. first_child (?ys ! i) = int c \<and> c mod 4 = 1 \<and> c + 3 < length ?ys \<and>
           (\<forall>j. c \<le> j \<and> j < c + 4 \<longrightarrow>
              in_use (?ys ! j) \<and> parent_index (?ys ! j) = int i \<and>
              par j = i \<and> rank j = Suc (rank i))"
      using ci same by auto
  qed
  have frame: "\<forall>b\<in>set bs. \<forall>j. b \<le> j \<and> j < b + 4 \<longrightarrow> ?ys ! j = ?xs ! j"
  proof (intro ballI allI impI)
    fix b j assume b: "b \<in> set bs" and j: "b \<le> j \<and> j < b + 4"
    have "\<not> in_use (?xs ! j)"
      using free_chain_not_in_use[OF bs(2) b] j by simp
    then have "j \<noteq> q" using u by auto
    then show "?ys ! j = ?xs ! j" by simp
  qed
  have "free_chain ?ys (free_quad_node_index t) bs"
    using free_chain_cong[OF _ frame] bs(2) by simp
  then have ex: "\<exists>bs. distinct bs \<and> free_chain ?ys (free_quad_node_index t) bs"
    using bs(1) by blast
  have r0: "in_use (?ys ! 0)"
    using keep[of 0] root q by (cases "all_quad_node t") simp_all
  have te': "\<forall>i<length ?ys. - 1 \<le> total_entity (?ys ! i)"
    using te f(4) q by (auto simp: nth_list_update)
  show ?thesis
    unfolding pool_inv_def using len b' ex r0 te' by simp
qed

lemma free_chain_empty: "free_chain xs (- 1) bs \<Longrightarrow> bs = []"
  by (cases bs) simp_all

lemma pool_inv_split_append:
  assumes inv: "pool_inv par rank t" and q: "q < length (all_quad_node t)"
    and u: "in_use (all_quad_node t ! q)" and h: "free_quad_node_index t = - 1"
  shows "pool_inv
     (\<lambda>j. if length (all_quad_node t) \<le> j \<and> j < length (all_quad_node t) + 4 then q else par j)
     (\<lambda>j. if length (all_quad_node t) \<le> j \<and> j < length (all_quad_node t) + 4 then Suc (rank q) else rank j)
     (t\<lparr>num_quad_node_in_use := num_quad_node_in_use t + 4,
        all_quad_node := (all_quad_node t)
           [q := (all_quad_node t ! q)\<lparr>total_entity := - 1,
                                     first_child := int (length (all_quad_node t))\<rparr>]
           @ replicate 4 (QuadNode (int q))\<rparr>)"
proof -
  let ?xs = "all_quad_node t"
  let ?n = "length ?xs"
  let ?nq = "(?xs ! q)\<lparr>total_entity := - 1, first_child := int ?n\<rparr>"
  let ?ys = "?xs[q := ?nq] @ replicate 4 (QuadNode (int q))"
  let ?par = "\<lambda>j. if ?n \<le> j \<and> j < ?n + 4 then q else par j"
  let ?rank = "\<lambda>j. if ?n \<le> j \<and> j < ?n + 4 then Suc (rank q) else rank j"
  have binv: "branch_inv par rank ?xs" and len: "?n mod 4 = 1" and root: "in_use (?xs ! 0)"
    and te: "\<forall>i<length ?xs. - 1 \<le> total_entity (?xs ! i)"
    using inv by (simp_all add: pool_inv_def)
  have ynew: "\<And>j. ?n \<le> j \<Longrightarrow> j < ?n + 4 \<Longrightarrow> ?ys ! j = QuadNode (int q)"
    by (simp add: nth_append)
  have yq: "?ys ! q = ?nq" using q by (simp add: nth_append)
  have yo: "\<And>j. j < ?n \<Longrightarrow> j \<noteq> q \<Longrightarrow> ?ys ! j = ?xs ! j"
    by (simp add: nth_append)
  have keep: "\<And>j. j < ?n \<Longrightarrow>
      in_use (?ys ! j) = in_use (?xs ! j) \<and> parent_index (?ys ! j) = parent_index (?xs ! j)"
    using u q by (auto simp: nth_append nth_list_update)
  have b': "branch_inv ?par ?rank ?ys"
    unfolding branch_inv_def
  proof (intro allI impI)
    fix i
    assume i: "i < length ?ys" and ib: "in_use (?ys ! i) \<and> is_branch (?ys ! i)"
    have il: "i < ?n"
    proof (rule ccontr)
      assume "\<not> i < ?n"
      then have "?ys ! i = QuadNode (int q)" using i ynew by simp
      then show False using ib by (simp add: QuadNode_def is_branch_def)
    qed
    show "\<exists>c. first_child (?ys ! i) = int c \<and> c mod 4 = 1 \<and> c + 3 < length ?ys \<and>
           (\<forall>j. c \<le> j \<and> j < c + 4 \<longrightarrow>
              in_use (?ys ! j) \<and> parent_index (?ys ! j) = int i \<and>
              ?par j = i \<and> ?rank j = Suc (?rank i))"
    proof (cases "i = q")
      case True
      have "first_child (?ys ! i) = int ?n \<and> ?n mod 4 = 1 \<and> ?n + 3 < length ?ys \<and>
           (\<forall>j. ?n \<le> j \<and> j < ?n + 4 \<longrightarrow>
              in_use (?ys ! j) \<and> parent_index (?ys ! j) = int i \<and>
              ?par j = i \<and> ?rank j = Suc (?rank i))"
        using True yq len q ynew by (simp add: QuadNode_def)
      then show ?thesis by blast
    next
      case False
      then have same: "?ys ! i = ?xs ! i" using il yo by simp
      from branch_children[OF binv il] ib same
      obtain ci where ci: "first_child (?xs ! i) = int ci" "ci mod 4 = 1" "ci + 3 < ?n"
        and chi: "\<forall>j. ci \<le> j \<and> j < ci + 4 \<longrightarrow>
          in_use (?xs ! j) \<and> parent_index (?xs ! j) = int i \<and> par j = i \<and> rank j = Suc (rank i)"
        by auto
      have "\<forall>j. ci \<le> j \<and> j < ci + 4 \<longrightarrow>
          in_use (?ys ! j) \<and> parent_index (?ys ! j) = int i \<and> ?par j = i \<and> ?rank j = Suc (?rank i)"
      proof (intro allI impI)
        fix j assume j: "ci \<le> j \<and> j < ci + 4"
        then have jl: "j < ?n" using ci(3) by simp
        show "in_use (?ys ! j) \<and> parent_index (?ys ! j) = int i \<and> ?par j = i \<and> ?rank j = Suc (?rank i)"
          using keep[OF jl] chi j jl il by simp
      qed
      then show ?thesis using ci same by auto
    qed
  qed
  have "free_chain ?ys (- 1) []" by simp
  moreover have "distinct ([] :: nat list)" by simp
  ultimately have ex: "\<exists>bs. distinct bs \<and> free_chain ?ys (- 1) bs" by blast
  have r0: "in_use (?ys ! 0)"
    using keep[of 0] root q by (cases "all_quad_node t") simp_all
  have l': "length ?ys mod 4 = 1" using len by simp
  have te': "\<forall>i<length ?ys. - 1 \<le> total_entity (?ys ! i)"
  proof (intro allI impI)
    fix i assume i: "i < length ?ys"
    show "- 1 \<le> total_entity (?ys ! i)"
    proof (cases "i < ?n")
      case False
      then have "?ys ! i = QuadNode (int q)" using i ynew by simp
      then show ?thesis by (simp add: QuadNode_def)
    next
      case il: True
      show ?thesis
      proof (cases "i = q")
        case True
        then show ?thesis using yq by simp
      next
        case False
        then show ?thesis using yo[OF il] te il by simp
      qed
    qed
  qed
  show ?thesis
    unfolding pool_inv_def using l' b' ex r0 h te' by simp
qed

lemma free_chain_head:
  assumes "free_chain xs (int h) bs"
  shows "\<exists>bs'. bs = h # bs' \<and> h mod 4 = 1 \<and> h + 3 < length xs \<and>
     (\<forall>j. h \<le> j \<and> j < h + 4 \<longrightarrow> \<not> in_use (xs ! j)) \<and>
     free_chain xs (first_child (xs ! h)) bs'"
  using assms by (cases bs) auto

lemma pool_inv_split_reuse:
  assumes inv: "pool_inv par rank t" and q: "q < length (all_quad_node t)"
    and u: "in_use (all_quad_node t ! q)" and h: "free_quad_node_index t = int h"
  shows "h + 3 < length (all_quad_node t) \<and> (q < h \<or> h + 3 < q) \<and>
   pool_inv
     (\<lambda>j. if h \<le> j \<and> j < h + 4 then q else par j)
     (\<lambda>j. if h \<le> j \<and> j < h + 4 then Suc (rank q) else rank j)
     (t\<lparr>num_quad_node_in_use := num_quad_node_in_use t + 4,
        free_quad_node_index := first_child (all_quad_node t ! h),
        all_quad_node := map_block (update (- 1) 0 (int q)) h
           ((all_quad_node t)[q := (all_quad_node t ! q)\<lparr>total_entity := - 1,
                                                       first_child := int h\<rparr>])\<rparr>)"
proof -
  let ?xs = "all_quad_node t"
  let ?n = "length ?xs"
  let ?nq = "(?xs ! q)\<lparr>total_entity := - 1, first_child := int h\<rparr>"
  let ?ys = "map_block (update (- 1) 0 (int q)) h (?xs[q := ?nq])"
  let ?par = "\<lambda>j. if h \<le> j \<and> j < h + 4 then q else par j"
  let ?rank = "\<lambda>j. if h \<le> j \<and> j < h + 4 then Suc (rank q) else rank j"
  have binv: "branch_inv par rank ?xs" and len: "?n mod 4 = 1" and root: "in_use (?xs ! 0)"
    and te: "\<forall>i<length ?xs. - 1 \<le> total_entity (?xs ! i)"
    using inv by (simp_all add: pool_inv_def)
  from inv h obtain bs where bs: "distinct bs" "free_chain ?xs (int h) bs"
    unfolding pool_inv_def by auto
  from free_chain_head[OF bs(2)] obtain bs' where
    b: "bs = h # bs'" and hm: "h mod 4 = 1" and hl: "h + 3 < ?n"
    and hfree: "\<forall>j. h \<le> j \<and> j < h + 4 \<longrightarrow> \<not> in_use (?xs ! j)"
    and rest: "free_chain ?xs (first_child (?xs ! h)) bs'"
    by blast
  have qh: "\<not> (h \<le> q \<and> q < h + 4)" using hfree u by blast
  then have qh': "q < h \<or> h + 3 < q" by arith
  have ly: "length ?ys = ?n" by simp
  have yb: "\<And>j. h \<le> j \<Longrightarrow> j < h + 4 \<Longrightarrow> ?ys ! j = update (- 1) 0 (int q) (?xs ! j)"
  proof -
    fix j assume j: "h \<le> j" "j < h + 4"
    then have "j \<noteq> q" using qh by auto
    then show "?ys ! j = update (- 1) 0 (int q) (?xs ! j)"
      using j hl by simp
  qed
  have yq: "?ys ! q = ?nq" using q qh by auto
  have yo: "\<And>j. j < ?n \<Longrightarrow> j \<noteq> q \<Longrightarrow> \<not> (h \<le> j \<and> j < h + 4) \<Longrightarrow> ?ys ! j = ?xs ! j"
    by auto
  have keep: "\<And>j. j < ?n \<Longrightarrow> \<not> (h \<le> j \<and> j < h + 4) \<Longrightarrow>
      in_use (?ys ! j) = in_use (?xs ! j) \<and> parent_index (?ys ! j) = parent_index (?xs ! j)"
  proof -
    fix j assume j: "j < ?n" "\<not> (h \<le> j \<and> j < h + 4)"
    show "in_use (?ys ! j) = in_use (?xs ! j) \<and> parent_index (?ys ! j) = parent_index (?xs ! j)"
    proof (cases "j = q")
      case True
      then show ?thesis using yq by simp
    next
      case False
      then show ?thesis using yo[OF j(1) False j(2)] by simp
    qed
  qed
  have b': "branch_inv ?par ?rank ?ys"
    unfolding branch_inv_def
  proof (intro allI impI)
    fix i
    assume i: "i < length ?ys" and ib: "in_use (?ys ! i) \<and> is_branch (?ys ! i)"
    have il: "i < ?n" using i by simp
    have inb: "\<not> (h \<le> i \<and> i < h + 4)"
      using ib yb[of i] by (auto simp: update_def is_branch_def)
    show "\<exists>c. first_child (?ys ! i) = int c \<and> c mod 4 = 1 \<and> c + 3 < length ?ys \<and>
           (\<forall>j. c \<le> j \<and> j < c + 4 \<longrightarrow>
              in_use (?ys ! j) \<and> parent_index (?ys ! j) = int i \<and>
              ?par j = i \<and> ?rank j = Suc (?rank i))"
    proof (cases "i = q")
      case True
      have ch: "\<forall>j. h \<le> j \<and> j < h + 4 \<longrightarrow>
              in_use (?ys ! j) \<and> parent_index (?ys ! j) = int i \<and>
              ?par j = i \<and> ?rank j = Suc (?rank i)"
      proof (intro allI impI)
        fix j assume j: "h \<le> j \<and> j < h + 4"
        then have "?ys ! j = update (- 1) 0 (int q) (?xs ! j)" using yb by blast
        moreover have "?par j = q" "?rank j = Suc (rank q)" using j by auto
        moreover have "?rank i = rank q" using True qh by auto
        ultimately show "in_use (?ys ! j) \<and> parent_index (?ys ! j) = int i \<and>
              ?par j = i \<and> ?rank j = Suc (?rank i)"
          using True by (simp add: update_def)
      qed
      have "first_child (?ys ! i) = int h" using True yq by simp
      moreover have "h + 3 < length ?ys" using hl by simp
      ultimately show ?thesis using hm ch by blast
    next
      case False
      then have same: "?ys ! i = ?xs ! i" using il inb yo by simp
      from branch_children[OF binv il] ib same
      obtain ci where ci: "first_child (?xs ! i) = int ci" "ci mod 4 = 1" "ci + 3 < ?n"
        and chi: "\<forall>j. ci \<le> j \<and> j < ci + 4 \<longrightarrow>
          in_use (?xs ! j) \<and> parent_index (?xs ! j) = int i \<and> par j = i \<and> rank j = Suc (rank i)"
        by auto
      have "\<forall>j. ci \<le> j \<and> j < ci + 4 \<longrightarrow>
          in_use (?ys ! j) \<and> parent_index (?ys ! j) = int i \<and> ?par j = i \<and> ?rank j = Suc (?rank i)"
      proof (intro allI impI)
        fix j assume j: "ci \<le> j \<and> j < ci + 4"
        then have jl: "j < ?n" using ci(3) by simp
        have jx: "in_use (?xs ! j) \<and> parent_index (?xs ! j) = int i \<and> par j = i \<and> rank j = Suc (rank i)"
          using chi j by blast
        have jh: "\<not> (h \<le> j \<and> j < h + 4)" using jx hfree by blast
        have pj: "?par j = par j" "?rank j = rank j" using jh by auto
        have ri: "?rank i = rank i" using inb by auto
        show "in_use (?ys ! j) \<and> parent_index (?ys ! j) = int i \<and> ?par j = i \<and> ?rank j = Suc (?rank i)"
          unfolding pj ri using keep[OF jl jh] jx by simp
      qed
      then show ?thesis using ci same by auto
    qed
  qed
  have hnot: "h \<notin> set bs'" and dist: "distinct bs'" using bs(1) b by simp_all
  have frame: "\<forall>b\<in>set bs'. \<forall>j. b \<le> j \<and> j < b + 4 \<longrightarrow> ?ys ! j = ?xs ! j"
  proof (intro ballI allI impI)
    fix c j assume c: "c \<in> set bs'" and j: "c \<le> j \<and> j < c + 4"
    have nu: "\<not> in_use (?xs ! j)"
      using free_chain_not_in_use[OF rest c] j by simp
    have cb: "c mod 4 = 1" "c + 3 < ?n"
      using free_chain_bounds[OF rest c] by simp_all
    have "c \<noteq> h" using c hnot by auto
    then have "\<not> (h \<le> j \<and> j < h + 4)"
      using blocks_disjoint[OF cb(1) hm _ _ _] j by blast
    moreover have "j \<noteq> q" using nu u by auto
    moreover have "j < ?n" using cb j by simp
    ultimately show "?ys ! j = ?xs ! j" using yo by simp
  qed
  have "free_chain ?ys (first_child (?xs ! h)) bs'"
    using free_chain_cong[OF ly frame] rest by simp
  then have ex: "\<exists>bs. distinct bs \<and> free_chain ?ys (first_child (?xs ! h)) bs"
    using dist by blast
  have r0: "in_use (?ys ! 0)"
  proof -
    have "0 < ?n" using q by (cases "all_quad_node t") simp_all
    moreover have "\<not> (h \<le> 0 \<and> 0 < h + 4)" using hm by auto
    ultimately show ?thesis using keep[of 0] root by simp
  qed
  have te': "\<forall>i<length ?ys. - 1 \<le> total_entity (?ys ! i)"
  proof (intro allI impI)
    fix i assume i: "i < length ?ys"
    then have il: "i < ?n" by simp
    show "- 1 \<le> total_entity (?ys ! i)"
    proof (cases "h \<le> i \<and> i < h + 4")
      case True
      then have "?ys ! i = update (- 1) 0 (int q) (?xs ! i)" using yb by blast
      then show ?thesis by (simp add: update_def)
    next
      case nb: False
      show ?thesis
      proof (cases "i = q")
        case True
        then show ?thesis using yq by simp
      next
        case False
        then show ?thesis using yo[OF il False nb] te il by simp
      qed
    qed
  qed
  have "pool_inv ?par ?rank
     (t\<lparr>num_quad_node_in_use := num_quad_node_in_use t + 4,
        free_quad_node_index := first_child (?xs ! h),
        all_quad_node := ?ys\<rparr>)"
    unfolding pool_inv_def using len b' ex r0 te' by simp
  then show ?thesis using hl qh' by simp
qed

subsection \<open>Runs of clean_up that free nothing\<close>

lemma up_Suc_right: "up par (Suc n) j = par (up par n j)"
  by (induction n arbitrary: j) simp_all

lemma under_refl: "under par rank x x"
  by (simp add: under_def)

lemma under_child:
  assumes "par a = x" "rank a = Suc (rank x)" "under par rank j a"
  shows "under par rank j x"
proof -
  have le: "rank a \<le> rank j" and u: "up par (rank j - rank a) j = a"
    using assms(3) by (simp_all add: under_def)
  have "rank j - rank x = Suc (rank j - rank a)"
    using le assms(2) by simp
  then have "up par (rank j - rank x) j = par (up par (rank j - rank a) j)"
    by (simp only: up_Suc_right)
  then show ?thesis using u assms(1,2) le by (simp add: under_def)
qed

lemma under_siblings:
  assumes "rank a = rank b" "a \<noteq> b" "under par rank j a"
  shows "\<not> under par rank j b"
  using assms by (auto simp: under_def)

lemma not_under_lower:
  assumes "rank x < rank a"
  shows "\<not> under par rank x a"
  using assms by (simp add: under_def)


lemma quiet_sum_transfer:
  assumes "\<And>k r. k \<in> set ks \<Longrightarrow> f s (c + k) = Some r \<Longrightarrow> f' s' (c + k) = Some r"
    "length (all_quad_node s') = length (all_quad_node s)"
    "\<forall>k\<in>set ks. c + k < length (all_quad_node s)"
    "quiet_sum f s (int c) (map int ks) = Some v"
  shows "quiet_sum f' s' (int c) (map int ks) = Some v"
  using assms(1,3,4)
proof (induction ks arbitrary: v)
  case Nil
  then show ?case by simp
next
  case (Cons k ks)
  have i: "py_index (all_quad_node s) (int c + int k) = Some (c + k)"
    "py_index (all_quad_node s') (int c + int k) = Some (c + k)"
    using Cons.prems(2) assms(2) py_index_nat[of "all_quad_node s" "c + k"]
      py_index_nat[of "all_quad_node s'" "c + k"] by simp_all
  from Cons.prems(3) i obtain r v' where r: "f s (c + k) = Some r"
    and v': "quiet_sum f s (int c) (map int ks) = Some v'" and v: "v = r + v'"
    by (auto split: option.splits)
  have "f' s' (c + k) = Some r" using Cons.prems(1) r by simp
  moreover have "quiet_sum f' s' (int c) (map int ks) = Some v'"
    using Cons.prems(1,2) v' by (intro Cons.IH) simp_all
  ultimately show ?case using i v by simp
qed

lemma quiet_transfer:
  assumes "quiet d s x = Some r" "branch_inv par rank (all_quad_node s)"
    "x < length (all_quad_node s)"
    "length (all_quad_node s') = length (all_quad_node s)"
    "\<forall>j<length (all_quad_node s). under par rank j x \<longrightarrow> all_quad_node s' ! j = all_quad_node s ! j"
  shows "quiet d s' x = Some r"
  using assms(1,3,5)
proof (induction d arbitrary: x r)
  case 0
  then show ?case by simp
next
  case (Suc d)
  let ?n = "all_quad_node s ! x"
  have same: "all_quad_node s' ! x = ?n"
    using Suc.prems(2,3) under_refl by blast
  show ?case
  proof (cases "\<not> in_use ?n \<or> (is_leaf ?n \<and> total_entity ?n > 0)")
    case True
    then show ?thesis using Suc.prems(1) same by (auto simp: Let_def)
  next
    case a: False
    show ?thesis
    proof (cases "is_branch ?n")
      case False
      then show ?thesis using a Suc.prems(1) same by (auto simp: Let_def)
    next
      case True
      from Suc.prems(1) a True obtain v where
        v: "quiet_sum (quiet d) s (first_child ?n) [0, 1, 2, 3] = Some v" and v4: "v \<noteq> 4"
        and r: "r = 1"
        by (auto simp: Let_def split: option.splits if_splits simp del: quiet_sum.simps)
      from branch_children[OF assms(2) Suc.prems(2)] a True
      obtain c where c: "first_child ?n = int c" "c + 3 < length (all_quad_node s)"
        and ch: "\<forall>j. c \<le> j \<and> j < c + 4 \<longrightarrow> par j = x \<and> rank j = Suc (rank x)"
        by auto
      have m: "[0, 1, 2, 3] = map int [0, 1, 2, 3]" by simp
      have "quiet_sum (quiet d) s' (int c) (map int [0, 1, 2, 3]) = Some v"
      proof (rule quiet_sum_transfer[where f = "quiet d" and s = s])
        fix k r'
        assume k: "k \<in> set [0, 1, 2, 3 :: nat]" and q: "quiet d s (c + k) = Some r'"
        have kb: "c \<le> c + k \<and> c + k < c + 4" using k by auto
        have kl: "c + k < length (all_quad_node s)" using k c(2) by auto
        have pk: "par (c + k) = x" "rank (c + k) = Suc (rank x)" using ch kb by blast+
        have "\<forall>j<length (all_quad_node s). under par rank j (c + k) \<longrightarrow>
            all_quad_node s' ! j = all_quad_node s ! j"
          using Suc.prems(3) under_child[of par "c + k" x rank, OF pk] by blast
        then show "quiet d s' (c + k) = Some r'"
          using Suc.IH[OF q kl] by simp
      next
        show "length (all_quad_node s') = length (all_quad_node s)" by (rule assms(4))
        show "\<forall>k\<in>set [0, 1, 2, 3]. c + k < length (all_quad_node s)" using c(2) by auto
        show "quiet_sum (quiet d) s (int c) (map int [0, 1, 2, 3]) = Some v"
          using v c(1) by simp
      qed
      then have "quiet_sum (quiet d) s' (first_child ?n) [0, 1, 2, 3] = Some v"
        using c(1) by simp
      then show ?thesis
        using a True v4 r same by (simp add: Let_def del: quiet_sum.simps)
    qed
  qed
qed

lemma run_okD:
  assumes "run_ok par rank d" "pool_inv par rank t" "x < length (all_quad_node t)"
    "clean_unused_qnode d t x = Return r t'"
  shows "pool_inv par rank t'" "length (all_quad_node t') = length (all_quad_node t)"
    "\<forall>j<length (all_quad_node t). \<not> under par rank j x \<longrightarrow>
           all_quad_node t' ! j = all_quad_node t ! j"
    "quiet d t' x = Some r"
  using assms unfolding run_ok_def by blast+

lemma sum_children_ok:
  assumes ok: "run_ok par rank d"
    and ch: "\<forall>j. c \<le> j \<and> j < c + 4 \<longrightarrow> par j = x \<and> rank j = Suc (rank x)"
  shows "pool_inv par rank t0 \<Longrightarrow> c + 3 < length (all_quad_node t0) \<Longrightarrow>
    distinct ks \<Longrightarrow> \<forall>k\<in>set ks. k < 4 \<Longrightarrow>
    sum_children (clean_unused_qnode d) t0 (int c) (map int ks) = Return s t1 \<Longrightarrow>
    pool_inv par rank t1 \<and> length (all_quad_node t1) = length (all_quad_node t0) \<and>
    (\<forall>j<length (all_quad_node t0). (\<forall>k\<in>set ks. \<not> under par rank j (c + k)) \<longrightarrow>
        all_quad_node t1 ! j = all_quad_node t0 ! j) \<and>
    quiet_sum (quiet d) t1 (int c) (map int ks) = Some s"
proof (induction ks arbitrary: t0 s)
  case Nil
  then show ?case by simp
next
  case (Cons k ks)
  let ?n = "length (all_quad_node t0)"
  have k4: "k < 4" and kl: "c + k < ?n" using Cons.prems(2,4) by auto
  have i0: "py_index (all_quad_node t0) (int c + int k) = Some (c + k)"
    using kl py_index_nat[of "all_quad_node t0" "c + k"] by simp
  from Cons.prems(5) i0 obtain r ta s' where
    ra: "clean_unused_qnode d t0 (c + k) = Return r ta"
    and rr: "sum_children (clean_unused_qnode d) ta (int c) (map int ks) = Return s' t1"
    and s: "s = r + s'"
    by (auto split: outcome.splits)
  note a = run_okD[OF ok Cons.prems(1) kl ra]
  have la: "c + 3 < length (all_quad_node ta)" using a(2) Cons.prems(2) by simp
  have "pool_inv par rank t1 \<and> length (all_quad_node t1) = length (all_quad_node ta) \<and>
    (\<forall>j<length (all_quad_node ta). (\<forall>m\<in>set ks. \<not> under par rank j (c + m)) \<longrightarrow>
        all_quad_node t1 ! j = all_quad_node ta ! j) \<and>
    quiet_sum (quiet d) t1 (int c) (map int ks) = Some s'"
    using Cons.prems(3,4) by (intro Cons.IH[OF a(1) la _ _ rr]) simp_all
  then have b: "pool_inv par rank t1" "length (all_quad_node t1) = length (all_quad_node ta)"
    "\<forall>j<length (all_quad_node ta). (\<forall>m\<in>set ks. \<not> under par rank j (c + m)) \<longrightarrow>
        all_quad_node t1 ! j = all_quad_node ta ! j"
    "quiet_sum (quiet d) t1 (int c) (map int ks) = Some s'"
    by blast+
  have rk: "rank (c + k) = Suc (rank x)" using ch k4 by simp
  have sib: "\<forall>j. under par rank j (c + k) \<longrightarrow> (\<forall>m\<in>set ks. \<not> under par rank j (c + m))"
  proof (intro allI impI ballI)
    fix j m assume u: "under par rank j (c + k)" and m: "m \<in> set ks"
    have "m < 4" using m Cons.prems(4) by simp
    then have "rank (c + m) = Suc (rank x)" using ch by simp
    then have "rank (c + k) = rank (c + m)" using rk by simp
    moreover have "c + k \<noteq> c + m" using m Cons.prems(3) by auto
    ultimately show "\<not> under par rank j (c + m)" using u by (rule under_siblings)
  qed
  have binv: "branch_inv par rank (all_quad_node ta)"
    using a(1) by (simp add: pool_inv_def)
  have "\<forall>j<length (all_quad_node ta). under par rank j (c + k) \<longrightarrow>
      all_quad_node t1 ! j = all_quad_node ta ! j"
    using b(3) sib by blast
  then have qk: "quiet d t1 (c + k) = Some r"
    using quiet_transfer[OF a(4) binv _ b(2)] kl a(2) by simp
  have i1: "py_index (all_quad_node t1) (int c + int k) = Some (c + k)"
    using kl a(2) b(2) py_index_nat[of "all_quad_node t1" "c + k"] by simp
  have q: "quiet_sum (quiet d) t1 (int c) (map int (k # ks)) = Some s"
    using i1 qk b(4) s by simp
  have fr: "\<forall>j<?n. (\<forall>m\<in>set (k # ks). \<not> under par rank j (c + m)) \<longrightarrow>
        all_quad_node t1 ! j = all_quad_node t0 ! j"
    using a(2,3) b(3) by simp
  show ?case using b(1,2) a(2) fr q by simp
qed
lemma run_ok_Suc:
  assumes ok: "run_ok par rank d"
  shows "run_ok par rank (Suc d)"
  unfolding run_ok_def
proof (intro allI impI, elim conjE)
  fix t x r t'
  assume inv: "pool_inv par rank t" and x: "x < length (all_quad_node t)"
    and run: "clean_unused_qnode (Suc d) t x = Return r t'"
  let ?xs = "all_quad_node t"
  let ?n = "?xs ! x"
  let ?goal = "pool_inv par rank t' \<and> length (all_quad_node t') = length ?xs \<and>
        (\<forall>j<length ?xs. \<not> under par rank j x \<longrightarrow> all_quad_node t' ! j = ?xs ! j) \<and>
        quiet (Suc d) t' x = Some r"
  show ?goal
  proof (cases "\<not> in_use ?n \<or> (is_leaf ?n \<and> total_entity ?n > 0)")
    case True
    then have "t' = t" "r = 0" using run by (auto simp: Let_def)
    then show ?thesis using inv True by (auto simp: Let_def)
  next
    case a: False
    show ?thesis
    proof (cases "is_branch ?n")
      case False
      then have "t' = t" "r = 1" using run a by (auto simp: Let_def)
      then show ?thesis using inv a False by (auto simp: Let_def)
    next
      case br: True
      have binv: "branch_inv par rank ?xs" using inv by (simp add: pool_inv_def)
      from branch_children[OF binv x] a br
      obtain c where c: "first_child ?n = int c" "c mod 4 = 1" "c + 3 < length ?xs"
        "x < c \<or> c + 3 < x"
        and ch: "\<forall>j. c \<le> j \<and> j < c + 4 \<longrightarrow>
          in_use (?xs ! j) \<and> parent_index (?xs ! j) = int x \<and> par j = x \<and> rank j = Suc (rank x)"
        by auto
      have chg: "\<forall>j. c \<le> j \<and> j < c + 4 \<longrightarrow> par j = x \<and> rank j = Suc (rank x)"
        using ch by blast
      from run a br c(1) obtain s t1 where
        sc: "sum_children (clean_unused_qnode d) t (int c) [0, 1, 2, 3] = Return s t1"
        by (auto simp: Let_def split: outcome.splits simp del: sum_children.simps)
      have m0: "[0, 1, 2, 3] = map int [0, 1, 2, 3]" by simp
      have sc': "sum_children (clean_unused_qnode d) t (int c) (map int [0, 1, 2, 3]) = Return s t1"
        using sc by (simp only: m0[symmetric])
      have "pool_inv par rank t1 \<and> length (all_quad_node t1) = length ?xs \<and>
        (\<forall>j<length ?xs. (\<forall>k\<in>set [0, 1, 2, 3]. \<not> under par rank j (c + k)) \<longrightarrow>
            all_quad_node t1 ! j = ?xs ! j) \<and>
        quiet_sum (quiet d) t1 (int c) (map int [0, 1, 2, 3]) = Some s"
        by (rule sum_children_ok[OF ok chg inv c(3) _ _ sc']) simp_all
      then have l: "pool_inv par rank t1" "length (all_quad_node t1) = length ?xs"
        and fr1: "\<forall>j<length ?xs. (\<forall>k\<in>set [0, 1, 2, 3]. \<not> under par rank j (c + k)) \<longrightarrow>
            all_quad_node t1 ! j = ?xs ! j"
        and qs0: "quiet_sum (quiet d) t1 (int c) (map int [0, 1, 2, 3]) = Some s"
        by blast+
      have m: "map int [0, 1, 2, 3] = [0, 1, 2, 3]" by simp
      have qs: "quiet_sum (quiet d) t1 (int c) [0, 1, 2, 3] = Some s"
        using qs0 unfolding m .
      have nu: "\<And>j k. k \<in> set [0, 1, 2, 3 :: nat] \<Longrightarrow> \<not> under par rank j x \<Longrightarrow>
          \<not> under par rank j (c + k)"
      proof
        fix j k assume k: "k \<in> set [0, 1, 2, 3 :: nat]" and n: "\<not> under par rank j x"
          and u: "under par rank j (c + k)"
        have "par (c + k) = x" "rank (c + k) = Suc (rank x)" using chg k by auto
        then have "under par rank j x" using u by (rule under_child)
        then show False using n by simp
      qed
      have fr: "\<forall>j<length ?xs. \<not> under par rank j x \<longrightarrow> all_quad_node t1 ! j = ?xs ! j"
        using fr1 nu by blast
      have "\<forall>k\<in>set [0, 1, 2, 3]. \<not> under par rank x (c + k)"
      proof
        fix k assume k: "k \<in> set [0, 1, 2, 3 :: nat]"
        have "rank (c + k) = Suc (rank x)" using chg k by auto
        then have "rank x < rank (c + k)" by simp
        then show "\<not> under par rank x (c + k)" by (rule not_under_lower)
      qed
      then have x1: "all_quad_node t1 ! x = ?n" using fr1 x by blast
      have x1l: "x < length (all_quad_node t1)" using x l(2) by simp
      show ?thesis
      proof (cases "s = 4")
        case False
        then have e: "t' = t1" "r = 1"
          using run a br c(1) sc by (auto simp: Let_def simp del: sum_children.simps)
        have "quiet (Suc d) t1 x = Some 1"
          using x1 a br c(1) qs False by (simp add: Let_def del: quiet_sum.simps)
        then show ?thesis using e l fr by simp
      next
        case s4: True
        let ?ys = "all_quad_node t1"
        let ?t2 = "t1\<lparr>free_quad_node_index := int c,
                  num_quad_node_in_use := num_quad_node_in_use t1 - 4,
                  all_quad_node := (map_block (set_free (free_quad_node_index t1)) c ?ys)
                     [x := (?ys ! x)\<lparr>first_child := - 1, total_entity := 0\<rparr>]\<rparr>"
        have u1: "in_use (?ys ! x)" "is_branch (?ys ! x)" "first_child (?ys ! x) = int c"
          using x1 a br c(1) by simp_all
        have binv1: "branch_inv par rank ?ys" using l(1) by (simp add: pool_inv_def)
        from branch_children[OF binv1 x1l u1(1,2)] u1(3)
        have pc: "parent_index (?ys ! c) = int x" by auto
        have c3: "c + 3 < length ?ys" using c(3) l(2) by simp
        have sf: "set_free_quad_node t1 (int c) = Return () ?t2"
          using x1l u1(3) c3 c(4) c(2) pc by (rule set_free_quad_node_block)
        have inv2: "pool_inv par rank ?t2"
          using l(1) x1l u1 by (rule pool_inv_freed)
        have x2: "all_quad_node ?t2 ! x = (?ys ! x)\<lparr>first_child := - 1, total_entity := 0\<rparr>"
          using x1l by simp
        have fr2: "\<forall>j<length ?xs. \<not> under par rank j x \<longrightarrow> all_quad_node ?t2 ! j = ?xs ! j"
        proof (intro allI impI)
          fix j assume j: "j < length ?xs" and n: "\<not> under par rank j x"
          have jx: "j \<noteq> x" using n under_refl by auto
          have jb: "\<not> (c \<le> j \<and> j < c + 4)"
          proof
            assume b: "c \<le> j \<and> j < c + 4"
            then have "par j = x" "rank j = Suc (rank x)" using chg by blast+
            then have "under par rank j x"
              using under_refl[of par rank j] by (rule under_child)
            then show False using n by simp
          qed
          have "all_quad_node ?t2 ! j = ?ys ! j"
            using j jx jb l(2) by (auto simp: nth_list_update)
          then show "all_quad_node ?t2 ! j = ?xs ! j" using fr j n by simp
        qed
        have len2: "length (all_quad_node ?t2) = length ?xs" using l(2) by simp
        show ?thesis
        proof (cases "x = 0")
          case False
          then have e: "t' = ?t2" "r = 1"
            using run a br c(1) sc s4 sf by (auto simp: Let_def simp del: sum_children.simps)
          have "quiet (Suc d) ?t2 x = Some 1"
            using x2 u1(1) by (simp add: Let_def is_leaf_def is_branch_def del: quiet_sum.simps)
          then show ?thesis unfolding e using inv2 len2 fr2 by blast
        next
          case x0: True
          let ?t3 = "node_upd ?t2 x (\<lambda>n. n\<lparr>first_child := 1\<rparr>)"
          have e: "t' = ?t3" "r = 1"
            using run a br c(1) sc s4 sf x0
            by (auto simp: Let_def simp del: sum_children.simps node_upd_fields)
          have x2l: "x < length (all_quad_node ?t2)" using x1l by simp
          have inv3: "pool_inv par rank ?t3"
            using inv2 x2l
          proof (rule pool_inv_leaf_upd)
            show "in_use (all_quad_node ?t2 ! x)" using x2 u1(1) by simp
            show "in_use ((all_quad_node ?t2 ! x)\<lparr>first_child := 1\<rparr>)" using x2 u1(1) by simp
            show "parent_index ((all_quad_node ?t2 ! x)\<lparr>first_child := 1\<rparr>)
                = parent_index (all_quad_node ?t2 ! x)" by simp
            show "\<not> is_branch ((all_quad_node ?t2 ! x)\<lparr>first_child := 1\<rparr>)"
              using x2 by (simp add: is_branch_def)
            show "- 1 \<le> total_entity ((all_quad_node ?t2 ! x)\<lparr>first_child := 1\<rparr>)"
              using x2 by simp
          qed
          have x3: "all_quad_node ?t3 ! x
              = (?ys ! x)\<lparr>first_child := 1, total_entity := 0\<rparr>"
            using x1l by simp
          have q3: "quiet (Suc d) ?t3 x = Some 1"
            using x3 u1(1) by (simp add: Let_def is_leaf_def is_branch_def del: quiet_sum.simps node_upd_fields)
          have len3: "length (all_quad_node ?t3) = length ?xs" using l(2) by simp
          have fr3: "\<forall>j<length ?xs. \<not> under par rank j x \<longrightarrow> all_quad_node ?t3 ! j = ?xs ! j"
          proof (intro allI impI)
            fix j assume j: "j < length ?xs" and n: "\<not> under par rank j x"
            have jx: "j \<noteq> x" using n under_refl by auto
            have "all_quad_node ?t3 ! j = all_quad_node ?t2 ! j"
              using jx by (simp add: nth_list_update)
            then show "all_quad_node ?t3 ! j = ?xs ! j" using fr2 j n by simp
          qed
          show ?thesis unfolding e using inv3 len3 fr3 q3 by blast
        qed
      qed
    qed
  qed
qed

lemma run_ok_all: "run_ok par rank d"
proof (induction d)
  case 0
  show ?case by (simp add: run_ok_def)
next
  case (Suc d)
  then show ?case by (rule run_ok_Suc)
qed

subsection \<open>The states of a tree: the children of branches, and clean_up run twice\<close>

lemma free_chain_head_cases: "free_chain xs h bs \<Longrightarrow> h = - 1 \<or> (\<exists>b. h = int b)"
  by (cases bs) auto

lemma pool_inv_nonempty: "pool_inv par rank t \<Longrightarrow> 0 < length (all_quad_node t)"
  by (cases "all_quad_node t") (simp_all add: pool_inv_def)

lemma pool_inv_clean_up:
  assumes "pool_inv par rank t" "clean_up d t = Return () t'"
  shows "pool_inv par rank t'" "quiet d t' 0 = Some (case clean_unused_qnode d t 0 of Return r _ \<Rightarrow> r | Raise _ _ \<Rightarrow> 0)"
proof -
  from assms(2) obtain r where r: "clean_unused_qnode d t 0 = Return r t'"
    by (auto simp: clean_up_def split: outcome.splits)
  note a = run_okD[OF run_ok_all assms(1) pool_inv_nonempty[OF assms(1)] r]
  show "pool_inv par rank t'" by (rule a(1))
  show "quiet d t' 0 = Some (case clean_unused_qnode d t 0 of Return r _ \<Rightarrow> r | Raise _ _ \<Rightarrow> 0)"
    using a(4) r by simp
qed

lemma reachable_pool_inv: "reachable t \<Longrightarrow> \<exists>par rank. pool_inv par rank t"
proof (induction rule: reachable.induct)
  case (new sz d a t)
  then show ?case using pool_inv_init by blast
next
  case (split t q t')
  then obtain par rank where inv: "pool_inv par rank t" by blast
  from inv obtain bs where "free_chain (all_quad_node t) (free_quad_node_index t) bs"
    unfolding pool_inv_def by blast
  then consider "free_quad_node_index t = - 1" | h where "free_quad_node_index t = int h"
    using free_chain_head_cases by blast
  then show ?case
  proof cases
    case 1
    have "t' = t\<lparr>num_quad_node_in_use := num_quad_node_in_use t + 4,
        all_quad_node := (all_quad_node t)
           [q := (all_quad_node t ! q)\<lparr>total_entity := - 1,
                                     first_child := int (length (all_quad_node t))\<rparr>]
           @ replicate 4 (QuadNode (int q))\<rparr>"
      using set_branch_append[OF 1 split.hyps(2), of "int q"] split.hyps(4) by simp
    then show ?thesis
      using pool_inv_split_append[OF inv split.hyps(2,3) 1] by blast
  next
    case 2
    note r = pool_inv_split_reuse[OF inv split.hyps(2,3) 2]
    have "h + 3 < length (all_quad_node t)" "q < h \<or> h + 3 < q" using r by blast+
    then have "t' = t\<lparr>num_quad_node_in_use := num_quad_node_in_use t + 4,
        free_quad_node_index := first_child (all_quad_node t ! h),
        all_quad_node := map_block (update (- 1) 0 (int q)) h
           ((all_quad_node t)[q := (all_quad_node t ! q)\<lparr>total_entity := - 1,
                                                       first_child := int h\<rparr>])\<rparr>"
      using set_branch_reuse[OF 2 _ split.hyps(2), of "int q"] split.hyps(4) by simp
    then show ?thesis using r by blast
  qed
next
  case (free t p t')
  then obtain par rank where inv: "pool_inv par rank t" by blast
  have binv: "branch_inv par rank (all_quad_node t)" using inv by (simp add: pool_inv_def)
  from branch_children[OF binv free.hyps(2,3,4)]
  obtain c where c: "first_child (all_quad_node t ! p) = int c" "c mod 4 = 1"
    "c + 3 < length (all_quad_node t)" "p < c \<or> c + 3 < p"
    and pc: "parent_index (all_quad_node t ! c) = int p"
    by auto
  have "set_free_quad_node t (int c) = Return ()
     (t\<lparr>free_quad_node_index := int c,
        num_quad_node_in_use := num_quad_node_in_use t - 4,
        all_quad_node := (map_block (set_free (free_quad_node_index t)) c (all_quad_node t))
           [p := (all_quad_node t ! p)\<lparr>first_child := - 1, total_entity := 0\<rparr>]\<rparr>)"
    using free.hyps(2) c(1,3,4,2) pc by (rule set_free_quad_node_block)
  then have "t' = t\<lparr>free_quad_node_index := int c,
        num_quad_node_in_use := num_quad_node_in_use t - 4,
        all_quad_node := (map_block (set_free (free_quad_node_index t)) c (all_quad_node t))
           [p := (all_quad_node t ! p)\<lparr>first_child := - 1, total_entity := 0\<rparr>]\<rparr>"
    using free.hyps(5) c(1) by simp
  then show ?case
    using pool_inv_freed[OF inv free.hyps(2,3,4) c(1)] by blast
next
  case (clean t d t')
  then show ?case using pool_inv_clean_up(1) by blast
next
  case (entities t q n)
  then obtain par rank where inv: "pool_inv par rank t" by blast
  have "pool_inv par rank (node_upd t q (\<lambda>x. x\<lparr>total_entity := n\<rparr>))"
    using inv entities.hyps(2,3)
  proof (rule pool_inv_leaf_upd)
    show "in_use ((all_quad_node t ! q)\<lparr>total_entity := n\<rparr>)" using entities.hyps(3) by simp
    show "parent_index ((all_quad_node t ! q)\<lparr>total_entity := n\<rparr>)
        = parent_index (all_quad_node t ! q)" by simp
    show "\<not> is_branch ((all_quad_node t ! q)\<lparr>total_entity := n\<rparr>)"
      using entities.hyps(5) by (simp add: is_branch_def)
    show "- 1 \<le> total_entity ((all_quad_node t ! q)\<lparr>total_entity := n\<rparr>)"
      using entities.hyps(5) by simp
  qed
  then show ?case by blast
qed



subsection \<open>The two theorems at concrete trees\<close>


lemma reachable_tree_split2: "reachable tree_split2"
proof -
  have r0: "reachable tree_new" using tree_new_init by (rule reachable.new)
  have r1: "reachable tree_split"
  proof (rule reachable.split[where t = tree_new and q = 0])
    show "reachable tree_new" by (rule r0)
    show "0 < length (all_quad_node tree_new)" by (simp add: tree_new_def)
    show "in_use (all_quad_node tree_new ! 0)" by (simp add: tree_new_def QuadNode_def)
    show "set_branch tree_new 0 (int 0) = Return () tree_split"
      using tree_split_set_branch by simp
  qed
  show ?thesis
  proof (rule reachable.split[where t = tree_split and q = 4])
    show "reachable tree_split" by (rule r1)
    show "4 < length (all_quad_node tree_split)" by (simp add: tree_split_def)
    show "in_use (all_quad_node tree_split ! 4)" by (simp add: tree_split_def QuadNode_def)
    show "set_branch tree_split 4 (int 4) = Return () tree_split2"
      using tree_split2_set_branch by simp
  qed
qed




subsection \<open>The traversal of find_quad_node ends\<close>

lemma above_child:
  assumes "c < n" "rank c = Suc (rank x)"
  shows "above rank n c < above rank n x"
  unfolding above_def
proof (rule psubset_card_mono)
  show "finite {j. j < n \<and> rank x < rank j}" by simp
  have "c \<in> {j. j < n \<and> rank x < rank j}" using assms by simp
  moreover have "c \<notin> {j. j < n \<and> rank c < rank j}" by simp
  moreover have "{j. j < n \<and> rank c < rank j} \<subseteq> {j. j < n \<and> rank x < rank j}"
    using assms(2) by auto
  ultimately show "{j. j < n \<and> rank c < rank j} \<subset> {j. j < n \<and> rank x < rank j}"
    by blast
qed

lemma finishes_Nil: "finishes g t b []"
  unfolding finishes_def
proof (intro exI allI)
  fix fuel to_process candidates
  show "find_quad_node_loop g t b (0 + fuel) (to_process @ []) candidates
      = find_quad_node_loop g t b fuel to_process (candidates @ [])"
    by simp
qed

lemma finishes_append:
  assumes "finishes g t b es" "finishes g t b fs"
  shows "finishes g t b (es @ fs)"
proof -
  from assms(1) obtain n cs where
    a: "\<And>fuel tp ca. find_quad_node_loop g t b (n + fuel) (tp @ es) ca
          = find_quad_node_loop g t b fuel tp (ca @ cs)"
    unfolding finishes_def by blast
  from assms(2) obtain m ds where
    b: "\<And>fuel tp ca. find_quad_node_loop g t b (m + fuel) (tp @ fs) ca
          = find_quad_node_loop g t b fuel tp (ca @ ds)"
    unfolding finishes_def by blast
  show ?thesis
    unfolding finishes_def
  proof (intro exI allI)
    fix fuel tp ca
    have "find_quad_node_loop g t b ((m + n) + fuel) (tp @ es @ fs) ca
        = find_quad_node_loop g t b (m + (n + fuel)) ((tp @ es) @ fs) ca"
      by (simp add: add.assoc)
    also have "\<dots> = find_quad_node_loop g t b (n + fuel) (tp @ es) (ca @ ds)"
      by (rule b)
    also have "\<dots> = find_quad_node_loop g t b fuel tp ((ca @ ds) @ cs)"
      by (rule a)
    finally show "find_quad_node_loop g t b ((m + n) + fuel) (tp @ es @ fs) ca
        = find_quad_node_loop g t b fuel tp (ca @ (ds @ cs))"
      by simp
  qed
qed

lemma finishes_list:
  assumes "\<forall>e\<in>set es. finishes g t b [e]"
  shows "finishes g t b es"
  using assms
proof (induction es)
  case Nil
  show ?case by (rule finishes_Nil)
next
  case (Cons e es)
  have "finishes g t b ([e] @ es)"
    using Cons by (intro finishes_append) simp_all
  then show ?case by simp
qed

lemma finishes_step:
  assumes "\<And>fuel to_process candidates.
      find_quad_node_loop g t b (Suc fuel) (to_process @ [e]) candidates
        = find_quad_node_loop g t b fuel (to_process @ es) (candidates @ cs)"
    "finishes g t b es"
  shows "finishes g t b [e]"
proof -
  from assms(2) obtain n ds where
    a: "\<And>fuel tp ca. find_quad_node_loop g t b (n + fuel) (tp @ es) ca
          = find_quad_node_loop g t b fuel tp (ca @ ds)"
    unfolding finishes_def by blast
  show ?thesis
    unfolding finishes_def
  proof (intro exI allI)
    fix fuel tp ca
    have "find_quad_node_loop g t b (Suc n + fuel) (tp @ [e]) ca
        = find_quad_node_loop g t b (n + fuel) (tp @ es) (ca @ cs)"
      using assms(1)[of "n + fuel" tp ca] by simp
    also have "\<dots> = find_quad_node_loop g t b fuel tp ((ca @ cs) @ ds)"
      by (rule a)
    finally show "find_quad_node_loop g t b (Suc n + fuel) (tp @ [e]) ca
        = find_quad_node_loop g t b fuel tp (ca @ (cs @ ds))"
      by simp
  qed
qed

lemma contained_quadrants_index:
  assumes "e \<in> set (contained_quadrants g b n qbbox)"
  shows "\<exists>ind. ind < length (split_box g qbbox) \<and> fst e = first_child n + int ind"
  using assms by (auto simp: contained_quadrants_def in_set_enumerate_eq)

lemma node_finishes:
  assumes inv: "pool_inv par rank t" and geo: "\<forall>qb. length (split_box g qb) \<le> 4"
  shows "x < length (all_quad_node t) \<Longrightarrow> finishes g t b [(int x, qbbox)]"
proof (induction "above rank (length (all_quad_node t)) x" arbitrary: x qbbox rule: less_induct)
  case less
  let ?xs = "all_quad_node t"
  let ?n = "?xs ! x"
  let ?e = "(int x, qbbox)"
  have idx: "py_index ?xs (int x) = Some x" using less.prems by simp
  have binv: "branch_inv par rank ?xs" and te: "\<forall>i<length ?xs. - 1 \<le> total_entity (?xs ! i)"
    using inv by (simp_all add: pool_inv_def)
  show ?case
  proof (cases "in_use ?n")
    case False
    have "\<And>fuel tp ca. find_quad_node_loop g t b (Suc fuel) (tp @ [?e]) ca
        = find_quad_node_loop g t b fuel (tp @ []) (ca @ [])"
      using idx False by simp
    then show ?thesis using finishes_Nil by (rule finishes_step)
  next
    case u: True
    show ?thesis
    proof (cases "is_leaf ?n")
      case True
      have "\<And>fuel tp ca. find_quad_node_loop g t b (Suc fuel) (tp @ [?e]) ca
          = find_quad_node_loop g t b fuel (tp @ []) (ca @ [(int x, x, qbbox)])"
        using idx u True by simp
      then show ?thesis using finishes_Nil by (rule finishes_step)
    next
      case nl: False
      have br: "is_branch ?n"
        using nl te less.prems by (auto simp: is_leaf_def is_branch_def)
      from branch_children[OF binv less.prems u br]
      obtain c where c: "first_child ?n = int c" "c + 3 < length ?xs"
        and ch: "\<forall>j. c \<le> j \<and> j < c + 4 \<longrightarrow> rank j = Suc (rank x)"
        by auto
      have step: "\<And>fuel tp ca. find_quad_node_loop g t b (Suc fuel) (tp @ [?e]) ca
          = find_quad_node_loop g t b fuel (tp @ contained_quadrants g b ?n qbbox)
              (ca @ [(int x, x, qbbox)])"
        using idx u nl by (simp add: Let_def)
      have "\<forall>e\<in>set (contained_quadrants g b ?n qbbox). finishes g t b [e]"
      proof
        fix e assume e: "e \<in> set (contained_quadrants g b ?n qbbox)"
        from contained_quadrants_index[OF e] obtain ind where
          ind: "ind < length (split_box g qbbox)" "fst e = first_child ?n + int ind"
          by blast
        have i4: "ind < 4" using ind(1) geo by (meson le_trans not_le)
        have ee: "e = (int (c + ind), snd e)"
          using ind(2) c(1) by (cases e) simp
        have cl: "c + ind < length ?xs" using i4 c(2) by simp
        have "rank (c + ind) = Suc (rank x)" using ch i4 by simp
        then have "above rank (length ?xs) (c + ind) < above rank (length ?xs) x"
          using cl by (intro above_child)
        then have "finishes g t b [(int (c + ind), snd e)]"
          using cl by (rule less.hyps)
        then show "finishes g t b [e]" using ee by simp
      qed
      then have "finishes g t b (contained_quadrants g b ?n qbbox)"
        by (rule finishes_list)
      with step show ?thesis by (rule finishes_step)
    qed
  qed
qed

lemma find_quad_node_loop_grows:
  "find_quad_node_loop g t b fuel to_process cs = Some (Inr cs') \<Longrightarrow> \<exists>ext. cs' = cs @ ext"
proof (induction fuel arbitrary: to_process cs)
  case 0
  then show ?case by (simp split: if_splits)
next
  case (Suc fuel)
  show ?case
  proof (cases "to_process = []")
    case True
    then show ?thesis using Suc.prems by simp
  next
    case False
    obtain qindex qbbox where l: "last to_process = (qindex, qbbox)"
      by (cases "last to_process")
    show ?thesis
    proof (cases "py_index (all_quad_node t) qindex")
      case None
      then show ?thesis using Suc.prems False l by simp
    next
      case (Some qnode)
      let ?n = "all_quad_node t ! qnode"
      consider (a) "\<not> in_use ?n" | (b) "in_use ?n" "is_leaf ?n" | (c) "in_use ?n" "\<not> is_leaf ?n"
        by blast
      then show ?thesis
      proof cases
        case a
        then have "find_quad_node_loop g t b fuel (butlast to_process) cs = Some (Inr cs')"
          using Suc.prems False l Some by simp
        then show ?thesis by (rule Suc.IH)
      next
        case b
        then have "find_quad_node_loop g t b fuel (butlast to_process)
            (cs @ [(qindex, qnode, qbbox)]) = Some (Inr cs')"
          using Suc.prems False l Some by simp
        then obtain ext where "cs' = (cs @ [(qindex, qnode, qbbox)]) @ ext"
          using Suc.IH by blast
        then show ?thesis by simp
      next
        case c
        then have "find_quad_node_loop g t b fuel
            (butlast to_process @ contained_quadrants g b ?n qbbox)
            (cs @ [(qindex, qnode, qbbox)]) = Some (Inr cs')"
          using Suc.prems False l Some by simp
        then obtain ext where "cs' = (cs @ [(qindex, qnode, qbbox)]) @ ext"
          using Suc.IH by blast
        then show ?thesis by simp
      qed
    qed
  qed
qed

lemma find_quad_node_total:
  assumes inv: "pool_inv par rank t" and geo: "\<forall>qb. length (split_box g qb) \<le> 4"
  shows "\<exists>n r cs. \<forall>fuel\<ge>n.
     find_quad_node_loop g t b fuel [(0, bbox t)] [] = Some (Inr cs) \<and>
     find_quad_node g t fuel b = Some (Inr r)"
proof -
  have l0: "0 < length (all_quad_node t)" and root: "in_use (all_quad_node t ! 0)"
    using inv by (cases "all_quad_node t"; simp add: pool_inv_def)+
  have "finishes g t b [(int 0, bbox t)]"
    using inv geo l0 by (rule node_finishes)
  then obtain n cs where
    f: "\<And>fuel tp ca. find_quad_node_loop g t b (n + fuel) (tp @ [(0, bbox t)]) ca
          = find_quad_node_loop g t b fuel tp (ca @ cs)"
    unfolding finishes_def by auto
  have e: "\<And>fuel ca. find_quad_node_loop g t b fuel [] ca = Some (Inr ca)"
  proof -
    fix fuel ca show "find_quad_node_loop g t b fuel [] ca = Some (Inr ca)"
      by (cases fuel) simp_all
  qed
  have run: "\<And>fuel. find_quad_node_loop g t b (n + fuel) [(0, bbox t)] [] = Some (Inr cs)"
    using f[of _ "[]" "[]"] e by simp
  have ne: "cs \<noteq> []"
  proof (cases n)
    case 0
    then show ?thesis using run[of 0] by simp
  next
    case (Suc m)
    have idx: "py_index (all_quad_node t) 0 = Some 0" using l0 by (simp add: py_index_def)
    have "\<exists>tp. find_quad_node_loop g t b m tp ([] @ [(0, 0, bbox t)]) = Some (Inr cs)"
      using run[of 0] Suc idx root by (auto simp: Let_def split: if_splits)
    then obtain tp ext where "cs = ([] @ [(0, 0, bbox t)]) @ ext"
      using find_quad_node_loop_grows by blast
    then show ?thesis by simp
  qed
  then obtain c rest where cs: "cs = c # rest" by (cases cs) auto
  have "\<forall>fuel\<ge>n. find_quad_node_loop g t b fuel [(0, bbox t)] [] = Some (Inr cs) \<and>
      find_quad_node g t fuel b = Some (Inr (min_by area c rest))"
  proof (intro allI impI)
    fix fuel assume "n \<le> fuel"
    then obtain k where "fuel = n + k" using le_Suc_ex by blast
    then show "find_quad_node_loop g t b fuel [(0, bbox t)] [] = Some (Inr cs) \<and>
        find_quad_node g t fuel b = Some (Inr (min_by area c rest))"
      using run[of k] cs by (simp add: find_quad_node_def py_min_def)
  qed
  then show ?thesis by blast
qed

lemma find_quad_node_loop_mono:
  "find_quad_node_loop g t b fuel to_process cs = Some x \<Longrightarrow>
   find_quad_node_loop g t b (fuel + k) to_process cs = Some x"
proof (induction fuel arbitrary: to_process cs)
  case 0
  then have e: "to_process = []" "x = Inr cs" by (simp_all split: if_splits)
  show ?case unfolding e by (cases k) simp_all
next
  case (Suc fuel)
  show ?case
  proof (cases "to_process = []")
    case True
    then show ?thesis using Suc.prems by simp
  next
    case False
    obtain qindex qbbox where l: "last to_process = (qindex, qbbox)"
      by (cases "last to_process")
    show ?thesis
    proof (cases "py_index (all_quad_node t) qindex")
      case None
      then show ?thesis using Suc.prems False l by simp
    next
      case (Some qnode)
      let ?n = "all_quad_node t ! qnode"
      consider (a) "\<not> in_use ?n" | (b) "in_use ?n" "is_leaf ?n" | (c) "in_use ?n" "\<not> is_leaf ?n"
        by blast
      then show ?thesis
      proof cases
        case a
        then have "find_quad_node_loop g t b fuel (butlast to_process) cs = Some x"
          using Suc.prems False l Some by simp
        then have "find_quad_node_loop g t b (fuel + k) (butlast to_process) cs = Some x"
          by (rule Suc.IH)
        then show ?thesis using a False l Some by simp
      next
        case b
        then have "find_quad_node_loop g t b fuel (butlast to_process)
            (cs @ [(qindex, qnode, qbbox)]) = Some x"
          using Suc.prems False l Some by simp
        then have "find_quad_node_loop g t b (fuel + k) (butlast to_process)
            (cs @ [(qindex, qnode, qbbox)]) = Some x"
          by (rule Suc.IH)
        then show ?thesis using b False l Some by simp
      next
        case c
        then have "find_quad_node_loop g t b fuel
            (butlast to_process @ contained_quadrants g b ?n qbbox)
            (cs @ [(qindex, qnode, qbbox)]) = Some x"
          using Suc.prems False l Some by simp
        then have "find_quad_node_loop g t b (fuel + k)
            (butlast to_process @ contained_quadrants g b ?n qbbox)
            (cs @ [(qindex, qnode, qbbox)]) = Some x"
          by (rule Suc.IH)
        then show ?thesis using c False l Some by simp
      qed
    qed
  qed
qed

lemma find_quad_node_mono:
  assumes "find_quad_node g t fuel b = Some x"
  shows "find_quad_node g t (fuel + k) b = Some x"
proof -
  from assms obtain y where
    y: "find_quad_node_loop g t b fuel [(0, bbox t)] [] = Some y"
    by (auto simp: find_quad_node_def split: option.splits)
  then have "find_quad_node_loop g t b (fuel + k) [(0, bbox t)] [] = Some y"
    by (rule find_quad_node_loop_mono)
  then show ?thesis using assms y by (simp add: find_quad_node_def)
qed

text \<open>Claim C1, as amended: for every tree reached by the operations, every query box and
  every \<open>split_box\<close> giving at most four quadrants, \<open>find_quad_node\<close> returns: there is an
  amount of fuel from which on the traversal ends with one list of recorded candidates and
  \<open>find_quad_node\<close> returns one candidate \<open>r\<close> without error, and no amount of fuel gives
  any other outcome. The result \<open>r\<close> is among the recorded candidates, none of them has a
  region of strictly smaller area, and \<open>r\<close> is the first of that area in the order of
  recording. Its region is the whole-tree box or has passed the overlap and the containment
  test against the query box, so it contains the query box whenever the whole-tree box
  does.\<close>

theorem find_quad_node_result:
  assumes "reachable t" and "\<forall>qb. length (split_box g qb) \<le> 4"
  shows "\<exists>n r candidates.
     (\<forall>fuel\<ge>n. find_quad_node g t fuel b = Some (Inr r) \<and>
        find_quad_node_loop g t b fuel [(0, bbox t)] [] = Some (Inr candidates)) \<and>
     (\<forall>fuel x. find_quad_node g t fuel b = Some x \<longrightarrow> x = Inr r) \<and>
     first_least area candidates r \<and> recorded g t b r \<and>
     (is_inscribed g b (bbox t) \<longrightarrow> is_inscribed g b (snd (snd r)))"
proof -
  from reachable_pool_inv[OF assms(1)] obtain par rank where inv: "pool_inv par rank t"
    by blast
  from find_quad_node_total[OF inv assms(2), of b] obtain n r cs where
    tot: "\<forall>fuel\<ge>n. find_quad_node_loop g t b fuel [(0, bbox t)] [] = Some (Inr cs) \<and>
       find_quad_node g t fuel b = Some (Inr r)"
    by blast
  then have run: "find_quad_node_loop g t b n [(0, bbox t)] [] = Some (Inr cs)"
    and res: "find_quad_node g t n b = Some (Inr r)"
    by simp_all
  have uniq: "\<forall>fuel x. find_quad_node g t fuel b = Some x \<longrightarrow> x = Inr r"
  proof (intro allI impI)
    fix fuel x assume "find_quad_node g t fuel b = Some x"
    then have "find_quad_node g t (fuel + n) b = Some x" by (rule find_quad_node_mono)
    moreover have "find_quad_node g t (fuel + n) b = Some (Inr r)" using tot by simp
    ultimately show "x = Inr r" by simp
  qed
  have m: "py_min area cs = Inr r"
    using res run by (simp add: find_quad_node_def)
  have fl: "first_least area cs r"
    using m by (rule py_min_first_least)
  have "\<forall>c\<in>set cs. recorded g t b c"
    using run by (rule find_quad_node_loop_recorded) (simp_all add: admitted_def)
  moreover have "r \<in> set cs"
    using fl by (auto simp: first_least_def)
  ultimately have rec: "recorded g t b r" by blast
  then have ins: "is_inscribed g b (bbox t) \<longrightarrow> is_inscribed g b (snd (snd r))"
    by (cases r) (auto simp: recorded_def admitted_def)
  show ?thesis using tot uniq fl rec ins by blast
qed

theorem find_quad_node_result_witness:
  "reachable tree_split2 \<and> (\<forall>qb. length (split_box plane_geometry qb) \<le> 4) \<and>
   is_inscribed plane_geometry \<lparr>box_x = 60, box_y = 60, box_w = 1, box_h = 1\<rparr> (bbox tree_split2) \<and>
   (\<exists>n candidates.
     (\<forall>fuel\<ge>n. find_quad_node plane_geometry tree_split2 fuel
           \<lparr>box_x = 60, box_y = 60, box_w = 1, box_h = 1\<rparr>
          = Some (Inr (5, 5, \<lparr>box_x = 50, box_y = 50, box_w = 25, box_h = 25\<rparr>)) \<and>
        find_quad_node_loop plane_geometry tree_split2
           \<lparr>box_x = 60, box_y = 60, box_w = 1, box_h = 1\<rparr> fuel [(0, bbox tree_split2)] []
          = Some (Inr candidates)) \<and>
     first_least area candidates (5, 5, \<lparr>box_x = 50, box_y = 50, box_w = 25, box_h = 25\<rparr>) \<and>
     recorded plane_geometry tree_split2 \<lparr>box_x = 60, box_y = 60, box_w = 1, box_h = 1\<rparr>
        (5, 5, \<lparr>box_x = 50, box_y = 50, box_w = 25, box_h = 25\<rparr>) \<and>
     is_inscribed plane_geometry \<lparr>box_x = 60, box_y = 60, box_w = 1, box_h = 1\<rparr>
        \<lparr>box_x = 50, box_y = 50, box_w = 25, box_h = 25\<rparr>)"
proof -
  let ?q = "\<lparr>box_x = 60, box_y = 60, box_w = 1, box_h = 1\<rparr>"
  let ?r = "(5 :: int, 5 :: nat, \<lparr>box_x = 50, box_y = 50, box_w = 25, box_h = 25\<rparr>)"
  have g: "\<forall>qb. length (split_box plane_geometry qb) \<le> 4"
    by (simp add: plane_geometry_def box_split_def Let_def)
  have i: "is_inscribed plane_geometry ?q (bbox tree_split2)"
    by (simp add: plane_geometry_def box_inscribed_def tree_split2_def)
  have e: "find_quad_node plane_geometry tree_split2 3 ?q = Some (Inr ?r)"
    by (simp add: find_quad_node_def tree_split2_def QuadNode_def numeral_3_eq_3 py_index_def
        contained_quadrants_def plane_geometry_def box_split_def box_intersecting_def
        box_inscribed_def enumerate_eq_zip Let_def is_leaf_def py_min_def area_def)
  from find_quad_node_result[OF reachable_tree_split2 g, of ?q]
  obtain n r candidates where
    a: "\<forall>fuel\<ge>n. find_quad_node plane_geometry tree_split2 fuel ?q = Some (Inr r) \<and>
        find_quad_node_loop plane_geometry tree_split2 ?q fuel [(0, bbox tree_split2)] []
          = Some (Inr candidates)"
    and u: "\<forall>fuel x. find_quad_node plane_geometry tree_split2 fuel ?q = Some x \<longrightarrow> x = Inr r"
    and p: "first_least area candidates r" "recorded plane_geometry tree_split2 ?q r"
      "is_inscribed plane_geometry ?q (bbox tree_split2) \<longrightarrow>
         is_inscribed plane_geometry ?q (snd (snd r))"
    by blast
  have "Inr ?r = (Inr r :: py_error + candidate)" using u e by blast
  then have r: "r = ?r" by simp
  have "is_inscribed plane_geometry ?q (snd (snd r))" using p(3) i by simp
  then have "is_inscribed plane_geometry ?q \<lparr>box_x = 50, box_y = 50, box_w = 25, box_h = 25\<rparr>"
    unfolding r by simp
  then show ?thesis
    using a p(1,2) reachable_tree_split2 g i unfolding r by blast
qed

text \<open>The query box reaches beyond the whole-tree box. No quadrant contains it, the root is
  the only candidate and is returned, and its region does not contain the query box.\<close>

theorem find_quad_node_containment_counterexample:
  "find_quad_node plane_geometry tree_split 2 \<lparr>box_x = 90, box_y = 90, box_w = 20, box_h = 20\<rparr>
     = Some (Inr (0, 0, \<lparr>box_x = 0, box_y = 0, box_w = 100, box_h = 100\<rparr>)) \<and>
   \<not> box_inscribed \<lparr>box_x = 90, box_y = 90, box_w = 20, box_h = 20\<rparr>
        \<lparr>box_x = 0, box_y = 0, box_w = 100, box_h = 100\<rparr>"
  by (simp add: find_quad_node_def tree_split_def QuadNode_def eval_nat_numeral py_index_def
        contained_quadrants_def plane_geometry_def box_split_def box_intersecting_def
        box_inscribed_def enumerate_eq_zip Let_def is_leaf_def py_min_def area_def)

end
